theory Spec2Isabelle
  imports Main
begin

section \<open>Sidebar history banner: data model\<close>

text \<open>
  The component keeps a bounded, deduplicated, most-recent-first list of visited
  locations. JavaScript strings are modelled as \<open>string\<close>; every string operation the
  component uses (\<open>startsWith\<close>, \<open>slice\<close>, \<open>split\<close>, \<open>includes\<close>, the two regular
  expressions) works on single code units, and the only characters it classifies are
  ASCII ones, so nothing depends on the size of the alphabet.
\<close>

record SidebarHistoryEntry =
  key :: string
  url :: string
  label :: string
  visitedAt :: int

record SidebarHistoryLabelContext =
  heading :: "string option"
  pathname :: string
  query :: string
  segments :: "string list"
  url :: string

definition DEFAULT_STORAGE_KEY :: string where
  "DEFAULT_STORAGE_KEY = ''sidebar-history-v1''"

definition DEFAULT_MAX_HISTORY :: nat where
  "DEFAULT_MAX_HISTORY = 50"

section \<open>JavaScript string helpers\<close>

text \<open>\<open>s.startsWith(p)\<close>.\<close>

definition startsWith :: "string \<Rightarrow> string \<Rightarrow> bool" where
  "startsWith s p = (take (length p) s = p)"

text \<open>\<open>s.includes(sub)\<close>: \<open>sub\<close> occurs at some offset of \<open>s\<close>.\<close>

fun includes_str :: "string \<Rightarrow> string \<Rightarrow> bool" where
  "includes_str [] sub = (sub = [])"
| "includes_str (c # cs) sub = (startsWith (c # cs) sub \<or> includes_str cs sub)"

text \<open>
  \<open>s.split(sep)\<close> for a one-character separator: the pieces between the separators,
  empty pieces included, so the empty string gives one empty piece.
\<close>

fun split :: "char \<Rightarrow> string \<Rightarrow> string list" where
  "split sep [] = [[]]"
| "split sep (c # cs) =
     (if c = sep then [] # split sep cs
      else (case split sep cs of
              [] \<Rightarrow> [[c]]
            | w # ws \<Rightarrow> (c # w) # ws))"

text \<open>\<open>xs.join(sep)\<close>.\<close>

fun join :: "string \<Rightarrow> string list \<Rightarrow> string" where
  "join sep [] = []"
| "join sep [x] = x"
| "join sep (x # y # ys) = x @ sep @ join sep (y # ys)"

text \<open>
  Truthiness of a value of type \<open>string | null | undefined\<close>: absent and the empty
  string are falsy.
\<close>

definition truthy :: "string option \<Rightarrow> bool" where
  "truthy v = (case v of None \<Rightarrow> False | Some s \<Rightarrow> s \<noteq> [])"

text \<open>
  Character classes of the regular expressions. \<open>\w\<close> is \<open>[A-Za-z0-9_]\<close>; under the
  flag \<open>i\<close> (without \<open>u\<close>) a class of ASCII letters also matches their upper-case forms
  and nothing else.
\<close>

definition lower_letters :: string where
  "lower_letters = ''abcdefghijklmnopqrstuvwxyz''"

definition upper_letters :: string where
  "upper_letters = ''ABCDEFGHIJKLMNOPQRSTUVWXYZ''"

definition digits :: string where
  "digits = ''0123456789''"

definition is_word_char :: "char \<Rightarrow> bool" where
  "is_word_char c = (c \<in> set (lower_letters @ upper_letters @ digits @ ''_''))"

text \<open>
  \<open>char.toUpperCase()\<close> on a single character matched by \<open>\w\<close>, which is also how a
  pattern with the flag \<open>i\<close> compares ASCII characters: a lower-case ASCII letter becomes
  its upper-case form and every other character stays (under the flag \<open>i\<close> without \<open>u\<close>
  a character outside ASCII is never taken for an ASCII one).
\<close>

definition toUpperCase :: "char \<Rightarrow> char" where
  "toUpperCase c = (case map_of (zip lower_letters upper_letters) c of
                      None \<Rightarrow> c | Some u \<Rightarrow> u)"

section \<open>The identifier pattern\<close>

text \<open>
  \<open>UUID_PATTERN = /^[0-9a-f]{8}-[0-9a-f]{4}-[1-5][0-9a-f]{3}-[89ab][0-9a-f]{3}-[0-9a-f]{12}$/i\<close>.
  The pattern is a sequence of character classes, each repeated a fixed number of times,
  between the anchors \<open>^\<close> and \<open>$\<close>.
\<close>

datatype char_class = Class string | Literal char

text \<open>
  Whether a character is in a class, under the flag \<open>i\<close>: both sides are compared after
  \<open>toUpperCase\<close>.
\<close>

fun class_matches_i :: "char_class \<Rightarrow> char \<Rightarrow> bool" where
  "class_matches_i (Class cs) c = (toUpperCase c \<in> set (map toUpperCase cs))"
| "class_matches_i (Literal l) c = (toUpperCase c = toUpperCase l)"

definition UUID_PATTERN :: "(char_class \<times> nat) list" where
  "UUID_PATTERN =
     [(Class ''0123456789abcdef'', 8), (Literal CHR ''-'', 1),
      (Class ''0123456789abcdef'', 4), (Literal CHR ''-'', 1),
      (Class ''12345'', 1), (Class ''0123456789abcdef'', 3), (Literal CHR ''-'', 1),
      (Class ''89ab'', 1), (Class ''0123456789abcdef'', 3), (Literal CHR ''-'', 1),
      (Class ''0123456789abcdef'', 12)]"

text \<open>
  \<open>pattern.test(s)\<close> for an anchored pattern of this form: every class consumes exactly
  its number of characters and the string ends where the pattern ends.
\<close>

fun regex_test :: "(char_class \<times> nat) list \<Rightarrow> string \<Rightarrow> bool" where
  "regex_test [] s = (s = [])"
| "regex_test ((cls, n) # rest) s =
     (n \<le> length s \<and> list_all (class_matches_i cls) (take n s) \<and> regex_test rest (drop n s))"

section \<open>Location normalizer\<close>

text \<open>
  \<open>normalizePath(pathname, basePath)\<close>. The optional \<open>basePath\<close> is tested for truthiness:
  an absent or empty base path leaves the path as it is.
\<close>

definition normalizePath :: "string \<Rightarrow> string option \<Rightarrow> string" where
  "normalizePath pathname' basePath =
     (case basePath of
        None \<Rightarrow> pathname'
      | Some b \<Rightarrow>
          if b \<noteq> [] \<and> startsWith pathname' (b @ ''/'') then drop (length b) pathname'
          else if b \<noteq> [] \<and> pathname' = b then ''/''
          else pathname')"

text \<open>The memoised \<open>currentUrl\<close>; \<open>query'\<close> is \<open>searchParams.toString()\<close>.\<close>

definition currentUrl :: "string \<Rightarrow> string option \<Rightarrow> string \<Rightarrow> string" where
  "currentUrl pathname' basePath query' =
     (let path = normalizePath pathname' basePath
      in if query' \<noteq> [] then path @ ''?'' @ query' else path)"

text \<open>The memoised \<open>isIgnored\<close>.\<close>

definition isIgnored :: "string \<Rightarrow> string option \<Rightarrow> string list option \<Rightarrow> bool" where
  "isIgnored pathname' basePath ignorePaths =
     (case ignorePaths of
        None \<Rightarrow> False
      | Some ips \<Rightarrow>
          if ips = [] then False
          else (let normalizedPath = normalizePath pathname' basePath
                in list_ex (\<lambda>ignored. normalizedPath = ignored
                                     \<or> startsWith normalizedPath (ignored @ ''/'')) ips))"

text \<open>\<open>normalizedPath.split("/").filter(Boolean)\<close>.\<close>

definition path_segments :: "string \<Rightarrow> string list" where
  "path_segments normalizedPath = filter (\<lambda>s. s \<noteq> []) (split CHR ''/'' normalizedPath)"

section \<open>Label resolver\<close>

text \<open>
  \<open>toTitleCase(input)\<close>: first \<open>.replace(/[-_]/g, " ")\<close>, then
  \<open>.replace(/\b\w/g, (char) => char.toUpperCase())\<close>. \<open>/\b\w/\<close> matches a word character
  whose predecessor is not a word character (or that starts the string); the scan carries
  whether the previous character of the string is a word character.
\<close>

definition replace_dash_underscore :: "string \<Rightarrow> string" where
  "replace_dash_underscore s = map (\<lambda>c. if c = CHR ''-'' \<or> c = CHR ''_'' then CHR '' '' else c) s"

fun replace_word_starts :: "bool \<Rightarrow> string \<Rightarrow> string" where
  "replace_word_starts prev [] = []"
| "replace_word_starts prev (c # cs) =
     (if is_word_char c \<and> \<not> prev then toUpperCase c else c)
       # replace_word_starts (is_word_char c) cs"

definition toTitleCase :: "string \<Rightarrow> string" where
  "toTitleCase input = replace_word_starts False (replace_dash_underscore input)"

text \<open>
  \<open>getCurrentPageHeading()\<close>; its argument is \<open>h1?.textContent?.trim()\<close>, the trimmed text
  of the first top-level heading of the document, absent when there is none.
\<close>

definition getCurrentPageHeading :: "string option \<Rightarrow> string option" where
  "getCurrentPageHeading text' =
     (case text' of
        None \<Rightarrow> None
      | Some t \<Rightarrow> if t \<noteq> [] \<and> length t > 0 then Some t else None)"

text \<open>\<open>xs[i]\<close> for a possibly negative index: \<open>undefined\<close> out of range.\<close>

definition at_index :: "'a list \<Rightarrow> int \<Rightarrow> 'a option" where
  "at_index xs i = (if 0 \<le> i \<and> i < int (length xs) then Some (xs ! nat i) else None)"

text \<open>\<open>xs.slice(-2)\<close>: the last two elements, fewer when the list is shorter.\<close>

definition slice_last2 :: "'a list \<Rightarrow> 'a list" where
  "slice_last2 xs = drop (length xs - 2) xs"

text \<open>
  The label built from a heading: \<open>if (parent) return `${toTitleCase(parent)} / ${heading}`\<close>,
  else the heading alone. \<open>parent\<close> is falsy when it is \<open>undefined\<close> or empty.
\<close>

definition heading_label :: "string option \<Rightarrow> string \<Rightarrow> string" where
  "heading_label parent h =
     (case parent of
        None \<Rightarrow> h
      | Some p \<Rightarrow> if p \<noteq> [] then toTitleCase p @ '' / '' @ h else h)"

text \<open>The last return of the resolver: \<open>segments.slice(-2).map(toTitleCase).join(" / ")\<close>.\<close>

definition path_label :: "string list \<Rightarrow> string" where
  "path_label segs = join '' / '' (map toTitleCase (slice_last2 segs))"

text \<open>
  \<open>defaultLabelResolver(context)\<close>. \<open>context.heading && ...\<close> tests the heading for
  truthiness, so a heading that is \<open>null\<close> or empty skips both heading rules.
\<close>

definition defaultLabelResolver :: "SidebarHistoryLabelContext \<Rightarrow> string" where
  "defaultLabelResolver c =
     (if length (segments c) = 0 then ''Home''
      else
        let hasDynamicSegment = list_ex (regex_test UUID_PATTERN) (segments c) in
        case heading c of
          None \<Rightarrow> path_label (segments c)
        | Some h \<Rightarrow>
            if h \<noteq> [] \<and> hasDynamicSegment then
              heading_label (at_index (segments c) (int (length (segments c)) - 2)) h
            else if h \<noteq> [] \<and> includes_str (query c) ''_id='' then
              heading_label (at_index (segments c) (int (length (segments c)) - 1)) h
            else path_label (segments c))"

section \<open>History store\<close>

text \<open>
  The backend is \<open>localStorage\<close>: a map from keys to texts. A text is modelled by what
  \<open>JSON.parse\<close> makes of it: the empty text, a text that is not JSON (both make
  \<open>JSON.parse\<close> throw), or the JSON text of a value. A parsed value is modelled by what
  \<open>Array.isArray\<close> and \<open>slice\<close> see of it: not an array, or an array of elements. The
  element type is a parameter: the cast \<open>as SidebarHistoryEntry[]\<close> checks nothing, and
  \<open>JSON.stringify\<close> of a list of entries gives a text that parses back to that list.
\<close>

datatype 'a parsed = NotArray | Array "'a list"

datatype 'a item = EmptyText | BadText | JsonText "'a parsed"

datatype error = StorageError | SyntaxError | TypeError

type_synonym 'a storage = "string \<Rightarrow> 'a item option"

text \<open>
  \<open>localStorage.getItem(key)\<close> and \<open>localStorage.setItem(key, text)\<close>; either may throw
  (storage disabled or full), which the environment decides.
\<close>

definition getItem :: "bool \<Rightarrow> 'a storage \<Rightarrow> string \<Rightarrow> error + 'a item option" where
  "getItem throws ls k = (if throws then Inl StorageError else Inr (ls k))"

definition setItem :: "bool \<Rightarrow> 'a storage \<Rightarrow> string \<Rightarrow> 'a item \<Rightarrow> error + 'a storage" where
  "setItem throws ls k v = (if throws then Inl StorageError else Inr (ls(k \<mapsto> v)))"

definition JSON_parse :: "'a item \<Rightarrow> error + 'a parsed" where
  "JSON_parse raw =
     (case raw of
        EmptyText \<Rightarrow> Inl SyntaxError
      | BadText \<Rightarrow> Inl SyntaxError
      | JsonText v \<Rightarrow> Inr v)"

definition JSON_stringify :: "'a list \<Rightarrow> 'a item" where
  "JSON_stringify xs = JsonText (Array xs)"

text \<open>
  The body of the \<open>try\<close> block of \<open>readHistory\<close>; \<open>Inl\<close> is a thrown exception. The
  test \<open>if (!raw) return []\<close> holds for \<open>null\<close> and for the empty text.
\<close>

definition readHistory_try :: "bool \<Rightarrow> 'a storage \<Rightarrow> string \<Rightarrow> nat \<Rightarrow> error + 'a list" where
  "readHistory_try throws ls storageKey' maxHistory' =
     (case getItem throws ls storageKey' of
        Inl e \<Rightarrow> Inl e
      | Inr raw \<Rightarrow>
          (case raw of
             None \<Rightarrow> Inr []
           | Some EmptyText \<Rightarrow> Inr []
           | Some text' \<Rightarrow>
               (case JSON_parse text' of
                  Inl e \<Rightarrow> Inl e
                | Inr parsed \<Rightarrow>
                    (case parsed of
                       NotArray \<Rightarrow> Inr []
                     | Array xs \<Rightarrow> Inr (take maxHistory' xs)))))"

text \<open>\<open>readHistory(storageKey, maxHistory)\<close>: the \<open>catch\<close> turns every exception into \<open>[]\<close>.\<close>

definition readHistory :: "bool \<Rightarrow> 'a storage \<Rightarrow> string \<Rightarrow> nat \<Rightarrow> 'a list" where
  "readHistory throws ls storageKey' maxHistory' =
     (case readHistory_try throws ls storageKey' maxHistory' of
        Inl e \<Rightarrow> []
      | Inr xs \<Rightarrow> xs)"

text \<open>
  \<open>writeHistory(storageKey, entries, maxHistory)\<close>: a failed write is ignored and leaves
  the backend as it was.
\<close>

definition writeHistory :: "bool \<Rightarrow> 'a storage \<Rightarrow> string \<Rightarrow> 'a list \<Rightarrow> nat \<Rightarrow> 'a storage" where
  "writeHistory throws ls storageKey' entries' maxHistory' =
     (case setItem throws ls storageKey' (JSON_stringify (take maxHistory' entries')) of
        Inl e \<Rightarrow> ls
      | Inr ls' \<Rightarrow> ls')"

section \<open>The component\<close>

text \<open>
  The properties of \<open>SidebarHistoryBanner\<close> the history depends on, with the defaults of
  \<open>storageKey\<close> and \<open>maxHistory\<close> applied. \<open>maxHistory\<close> is a number of entries, a natural
  number, so that \<open>xs.slice(0, maxHistory)\<close> is \<open>take\<close>. The properties are the same
  throughout a run.
\<close>

record SidebarHistoryBannerProps =
  storageKey :: string
  maxHistory :: nat
  basePath :: "string option"
  ignorePaths :: "string list option"
  labelResolver :: "(SidebarHistoryLabelContext \<Rightarrow> string option) option"

text \<open>A location: \<open>usePathname()\<close> and \<open>useSearchParams().toString()\<close>.\<close>

record location =
  loc_pathname :: string
  loc_query :: string

text \<open>
  What the environment gives when a piece of code runs: the trimmed text of the first
  heading of the document, \<open>Date.now()\<close>, and whether the backend throws on a read and on
  a write.
\<close>

record environment =
  h1_text :: "string option"
  now :: int
  getItem_throws :: bool
  setItem_throws :: bool

text \<open>
  The state: the backend, the \<open>entries\<close> of \<open>useState\<close>, and the pending timer of the
  second effect with the location its closure holds.
\<close>

record banner =
  localStorage :: "SidebarHistoryEntry storage"
  entries :: "SidebarHistoryEntry list"
  timer :: "location option"

definition initial :: banner where
  "initial = \<lparr>localStorage = Map.empty, entries = [], timer = None\<rparr>"

text \<open>\<open>labelResolver?.(context) ?? defaultLabelResolver(context)\<close>.\<close>

definition resolveLabel ::
  "(SidebarHistoryLabelContext \<Rightarrow> string option) option \<Rightarrow> SidebarHistoryLabelContext \<Rightarrow> string" where
  "resolveLabel r c =
     (case r of
        None \<Rightarrow> defaultLabelResolver c
      | Some f \<Rightarrow> (case f c of None \<Rightarrow> defaultLabelResolver c | Some l \<Rightarrow> l))"

text \<open>The \<open>context\<close> both effects build for a location and a heading.\<close>

definition label_context ::
  "SidebarHistoryBannerProps \<Rightarrow> location \<Rightarrow> string option \<Rightarrow> SidebarHistoryLabelContext" where
  "label_context p l heading' =
     (let normalizedPath = normalizePath (loc_pathname l) (basePath p)
      in \<lparr>heading = heading',
          pathname = normalizedPath,
          query = loc_query l,
          segments = path_segments normalizedPath,
          url = currentUrl (loc_pathname l) (basePath p) (loc_query l)\<rparr>)"

text \<open>
  The first effect: capture of the current location. The new entry goes in front of the
  loaded entries that have another key, and the list is cut to \<open>maxHistory\<close>, written to
  the backend and given to \<open>setEntries\<close>.
\<close>

definition capture :: "SidebarHistoryBannerProps \<Rightarrow> location \<Rightarrow> environment \<Rightarrow> banner \<Rightarrow> banner" where
  "capture p l e s =
     (if isIgnored (loc_pathname l) (basePath p) (ignorePaths p) then s
      else
        let existing = readHistory (getItem_throws e) (localStorage s) (storageKey p) (maxHistory p);
            heading' = getCurrentPageHeading (h1_text e);
            resolvedLabel = resolveLabel (labelResolver p) (label_context p l heading');
            cur = currentUrl (loc_pathname l) (basePath p) (loc_query l);
            nextEntry = \<lparr>key = cur, SidebarHistoryEntry.url = cur,
                         label = resolvedLabel, visitedAt = now e\<rparr>;
            filtered = filter (\<lambda>entry. key entry \<noteq> key nextEntry) existing;
            next = take (maxHistory p) (nextEntry # filtered)
        in s\<lparr>localStorage :=
               writeHistory (setItem_throws e) (localStorage s) (storageKey p) next (maxHistory p),
             entries := next\<rparr>)"

text \<open>\<open>xs.findIndex(P)\<close>: \<open>None\<close> stands for \<open>-1\<close>.\<close>

fun findIndex :: "('a \<Rightarrow> bool) \<Rightarrow> 'a list \<Rightarrow> nat option" where
  "findIndex P [] = None"
| "findIndex P (x # xs) = (if P x then Some 0 else map_option Suc (findIndex P xs))"

text \<open>
  The callback of the timer the second effect sets; \<open>l\<close> is the location its closure
  holds. \<open>if (!heading) return\<close> tests the heading for truthiness. An entry is an object,
  so the test \<open>if (!currentEntry) return\<close> never returns.
\<close>

definition refine :: "SidebarHistoryBannerProps \<Rightarrow> location \<Rightarrow> environment \<Rightarrow> banner \<Rightarrow> banner" where
  "refine p l e s =
     (let heading' = getCurrentPageHeading (h1_text e) in
      if \<not> truthy heading' then s
      else
        let next = readHistory (getItem_throws e) (localStorage s) (storageKey p) (maxHistory p);
            cur = currentUrl (loc_pathname l) (basePath p) (loc_query l)
        in case findIndex (\<lambda>entry. key entry = cur) next of
             None \<Rightarrow> s
           | Some index \<Rightarrow>
               let currentEntry = next ! index;
                   updatedLabel = resolveLabel (labelResolver p) (label_context p l heading')
               in if label currentEntry = updatedLabel then s
                  else
                    let next' = next[index := currentEntry\<lparr>label := updatedLabel\<rparr>]
                    in s\<lparr>localStorage :=
                           writeHistory (setItem_throws e) (localStorage s) (storageKey p) next'
                             (maxHistory p),
                         entries := next'\<rparr>)"

text \<open>
  The second effect: unless the location is ignored it sets the timer, and its cleanup
  clears it.
\<close>

definition schedule :: "SidebarHistoryBannerProps \<Rightarrow> location \<Rightarrow> banner \<Rightarrow> banner" where
  "schedule p l s =
     (if isIgnored (loc_pathname l) (basePath p) (ignorePaths p) then s
      else s\<lparr>timer := Some l\<rparr>)"

definition clearTimeout :: "banner \<Rightarrow> banner" where
  "clearTimeout s = s\<lparr>timer := None\<rparr>"

text \<open>\<open>removeEntry(key)\<close> and \<open>clearHistory()\<close>; the removal filters the \<open>entries\<close> shown.\<close>

definition removeEntry :: "SidebarHistoryBannerProps \<Rightarrow> string \<Rightarrow> environment \<Rightarrow> banner \<Rightarrow> banner" where
  "removeEntry p k e s =
     (let next = filter (\<lambda>entry. key entry \<noteq> k) (entries s)
      in s\<lparr>localStorage :=
             writeHistory (setItem_throws e) (localStorage s) (storageKey p) next (maxHistory p),
           entries := next\<rparr>)"

definition clearHistory :: "SidebarHistoryBannerProps \<Rightarrow> environment \<Rightarrow> banner \<Rightarrow> banner" where
  "clearHistory p e s =
     s\<lparr>localStorage :=
         writeHistory (setItem_throws e) (localStorage s) (storageKey p) [] (maxHistory p),
       entries := []\<rparr>"

text \<open>
  What can happen to a mounted component. A navigation changes the dependencies of both
  effects: React first runs the cleanup of the second effect, then the first effect, then
  the second. The timer fires only while it is pending. Unmounting runs the cleanup and
  drops the component's state; the backend stays.
\<close>

datatype event =
    Navigate location environment
  | TimerFires environment
  | RemoveEntry string environment
  | ClearHistory environment
  | Unmount

fun step :: "SidebarHistoryBannerProps \<Rightarrow> banner \<Rightarrow> event \<Rightarrow> banner" where
  "step p s (Navigate l e) = schedule p l (capture p l e (clearTimeout s))"
| "step p s (TimerFires e) =
     (case timer s of
        None \<Rightarrow> s
      | Some l \<Rightarrow> refine p l e (clearTimeout s))"
| "step p s (RemoveEntry k e) = removeEntry p k e s"
| "step p s (ClearHistory e) = clearHistory p e s"
| "step p s Unmount = (clearTimeout s)\<lparr>entries := []\<rparr>"

definition run :: "SidebarHistoryBannerProps \<Rightarrow> banner \<Rightarrow> event list \<Rightarrow> banner" where
  "run p s evs = foldl (step p) s evs"

text \<open>The list the backend holds under the component's key (empty when it holds none).\<close>

definition stored :: "SidebarHistoryBannerProps \<Rightarrow> banner \<Rightarrow> SidebarHistoryEntry list" where
  "stored p s =
     (case localStorage s (storageKey p) of
        Some (JsonText (Array xs)) \<Rightarrow> xs
      | _ \<Rightarrow> [])"

text \<open>The times of the navigations of a run, in order.\<close>

fun visit_times :: "event list \<Rightarrow> int list" where
  "visit_times [] = []"
| "visit_times (Navigate l e # evs) = now e # visit_times evs"
| "visit_times (ev # evs) = visit_times evs"

section \<open>Notions of the specification\<close>

text \<open>
  JSON values, for backend payloads that need not be lists of entries (numbers are the
  integers; the history only stores timestamps).
\<close>

datatype json =
    JNull
  | JBool bool
  | JNumber int
  | JString string
  | JArray "json list"
  | JObject "(string \<times> json) list"

text \<open>
  What the capture does with loaded elements that need not be entries, at
  \<open>existing.filter((entry) => entry.key !== nextEntry.key)\<close>, outside any \<open>try\<close>. The
  property access \<open>entry.key\<close> throws a \<open>TypeError\<close> on \<open>null\<close>, gives the member of an
  object (the last one of that name, as \<open>JSON.parse\<close> keeps it) and \<open>undefined\<close> on every
  other value; an element is kept unless its key is the string compared with. The
  \<open>findIndex\<close> of the refinement reads \<open>entry.key\<close> in the same way.
\<close>

definition member :: "(string \<times> json) list \<Rightarrow> string \<Rightarrow> json option" where
  "member kvs name = map_of (rev kvs) name"

definition entry_key :: "json \<Rightarrow> error + json option" where
  "entry_key v =
     (case v of
        JNull \<Rightarrow> Inl TypeError
      | JObject kvs \<Rightarrow> Inr (member kvs ''key'')
      | _ \<Rightarrow> Inr None)"

fun filter_other_keys :: "string \<Rightarrow> json list \<Rightarrow> error + json list" where
  "filter_other_keys k [] = Inr []"
| "filter_other_keys k (x # xs) =
     (case entry_key x of
        Inl e \<Rightarrow> Inl e
      | Inr v \<Rightarrow>
          (case filter_other_keys k xs of
             Inl e \<Rightarrow> Inl e
           | Inr ys \<Rightarrow> Inr (if v \<noteq> Some (JString k) then x # ys else ys)))"

text \<open>
  A record with the fields of a history entry: \<open>key\<close>, \<open>url\<close> and \<open>label\<close> strings,
  \<open>visitedAt\<close> a number.
\<close>

definition is_string :: "json option \<Rightarrow> bool" where
  "is_string v = (case v of Some (JString s) \<Rightarrow> True | _ \<Rightarrow> False)"

definition is_number :: "json option \<Rightarrow> bool" where
  "is_number v = (case v of Some (JNumber n) \<Rightarrow> True | _ \<Rightarrow> False)"

definition is_history_entry :: "json \<Rightarrow> bool" where
  "is_history_entry v =
     (case v of
        JObject kvs \<Rightarrow>
          is_string (member kvs ''key'') \<and> is_string (member kvs ''url'')
          \<and> is_string (member kvs ''label'') \<and> is_number (member kvs ''visitedAt'')
      | _ \<Rightarrow> False)"

text \<open>
  The dynamic-identifier shape in the words of the specification: 36 characters, five
  groups delimited by hyphens, of 8, 4, 4, 4 and 12 hexadecimal digits (letters in either
  case), the third group beginning with a digit from 1 to 5 and the fourth with 8, 9, a
  or b (in either case).
\<close>

definition hex_digit :: "char \<Rightarrow> bool" where
  "hex_digit c = (c \<in> set ''0123456789abcdefABCDEF'')"

definition dynamic_identifier_shape :: "string \<Rightarrow> bool" where
  "dynamic_identifier_shape s =
     (length s = 36 \<and>
      (case split CHR ''-'' s of
         [g1, g2, g3, g4, g5] \<Rightarrow>
           length g1 = 8 \<and> length g2 = 4 \<and> length g3 = 4 \<and> length g4 = 4 \<and> length g5 = 12
           \<and> list_all hex_digit (g1 @ g2 @ g3 @ g4 @ g5)
           \<and> hd g3 \<in> set ''12345'' \<and> hd g4 \<in> set ''89abAB''
       | _ \<Rightarrow> False))"

text \<open>
  A letter or a digit: the word characters that are left once every underscore has become
  a space.
\<close>

definition is_letter_or_digit :: "char \<Rightarrow> bool" where
  "is_letter_or_digit c = (c \<in> set (lower_letters @ upper_letters @ digits))"

text \<open>
  Most-recent-visit-first: the timestamps of the entries never increase along the list.
\<close>

definition newest_first :: "SidebarHistoryEntry list \<Rightarrow> bool" where
  "newest_first xs = sorted_wrt (\<lambda>a b. b \<le> a) (map visitedAt xs)"

text \<open>
  \<open>upsert(entries, newEntry, cap)\<close> of the specification: remove any entry with the key of
  the new entry, prepend the new entry, truncate to the cap.
\<close>

definition upsert :: "nat \<Rightarrow> SidebarHistoryEntry \<Rightarrow> SidebarHistoryEntry list \<Rightarrow> SidebarHistoryEntry list" where
  "upsert cap x xs = take cap (x # filter (\<lambda>entry. key entry \<noteq> key x) xs)"

text \<open>
  An event after which the backend holds what the component shows: the component stays
  mounted and the write of the event, if it makes one, does not throw.
\<close>

fun write_ok :: "event \<Rightarrow> bool" where
  "write_ok (Navigate l e) = (\<not> setItem_throws e)"
| "write_ok (TimerFires e) = (\<not> setItem_throws e)"
| "write_ok (RemoveEntry k e) = (\<not> setItem_throws e)"
| "write_ok (ClearHistory e) = (\<not> setItem_throws e)"
| "write_ok Unmount = False"

text \<open>
  The order of the visits without the clock. \<open>untimed\<close> forgets the timestamp of an entry;
  \<open>restamp n\<close> gives the navigations of a run the timestamps \<open>n\<close>, \<open>n + 1\<close>, ... in the
  order in which they happen and leaves everything else as it is.
\<close>

definition untimed :: "SidebarHistoryEntry \<Rightarrow> SidebarHistoryEntry" where
  "untimed x = x\<lparr>visitedAt := 0\<rparr>"

fun restamp :: "int \<Rightarrow> event list \<Rightarrow> event list" where
  "restamp n [] = []"
| "restamp n (Navigate l e # evs) = Navigate l (e\<lparr>now := n\<rparr>) # restamp (n + 1) evs"
| "restamp n (ev # evs) = ev # restamp n evs"

section \<open>Auxiliary definitions for the proofs\<close>

text \<open>
  The list operation of the refinement: the label of the first entry with the key is
  replaced; and whether that entry exists with another label.
\<close>

definition relabel :: "string \<Rightarrow> string \<Rightarrow> SidebarHistoryEntry list \<Rightarrow> SidebarHistoryEntry list" where
  "relabel k u xs =
     (case findIndex (\<lambda>entry. key entry = k) xs of
        None \<Rightarrow> xs
      | Some i \<Rightarrow> xs[i := (xs ! i)\<lparr>label := u\<rparr>])"

definition needs_relabel :: "string \<Rightarrow> string \<Rightarrow> SidebarHistoryEntry list \<Rightarrow> bool" where
  "needs_relabel k u xs =
     (case find (\<lambda>entry. key entry = k) xs of
        None \<Rightarrow> False
      | Some x \<Rightarrow> label x \<noteq> u)"

text \<open>Two states that differ at most in the timestamps of their entries.\<close>

definition same_untimed :: "SidebarHistoryBannerProps \<Rightarrow> banner \<Rightarrow> banner \<Rightarrow> bool" where
  "same_untimed p s t \<longleftrightarrow>
     map untimed (entries s) = map untimed (entries t)
     \<and> map untimed (stored p s) = map untimed (stored p t)
     \<and> timer s = timer t"

section \<open>Example inputs\<close>

definition example_props :: SidebarHistoryBannerProps where
  "example_props =
     \<lparr>storageKey = DEFAULT_STORAGE_KEY, maxHistory = 3, basePath = Some ''/dashboard'',
      ignorePaths = Some [''/admin''], labelResolver = None\<rparr>"

definition plain_props :: SidebarHistoryBannerProps where
  "plain_props =
     \<lparr>storageKey = DEFAULT_STORAGE_KEY, maxHistory = 3, basePath = None,
      ignorePaths = None, labelResolver = None\<rparr>"

definition example_location :: location where
  "example_location = \<lparr>loc_pathname = ''/dashboard/docs'', loc_query = ''tab=2''\<rparr>"

definition env_at :: "int \<Rightarrow> string option \<Rightarrow> environment" where
  "env_at t h = \<lparr>h1_text = h, now = t, getItem_throws = False, setItem_throws = False\<rparr>"

definition example_entry :: "string \<Rightarrow> string \<Rightarrow> int \<Rightarrow> SidebarHistoryEntry" where
  "example_entry k l t = \<lparr>key = k, SidebarHistoryEntry.url = k, label = l, visitedAt = t\<rparr>"

definition backend_with :: "'a item \<Rightarrow> 'a storage" where
  "backend_with v = Map.empty(DEFAULT_STORAGE_KEY \<mapsto> v)"

definition uuid_example :: string where
  "uuid_example = ''123e4567-e89b-12d3-a456-426614174000''"

text \<open>Scenarios A, B and C of the specification.\<close>

definition scenario_A :: SidebarHistoryLabelContext where
  "scenario_A =
     \<lparr>heading = None, pathname = ''/docs/intro'', query = [],
      segments = [''docs'', ''intro''], url = ''/docs/intro''\<rparr>"

definition scenario_B :: SidebarHistoryLabelContext where
  "scenario_B =
     \<lparr>heading = Some ''Jane Doe'', pathname = ''/users/123e4567-e89b-12d3-a456-426614174000'',
      query = [], segments = [''users'', ''123e4567-e89b-12d3-a456-426614174000''],
      url = ''/users/123e4567-e89b-12d3-a456-426614174000''\<rparr>"

definition scenario_C :: SidebarHistoryLabelContext where
  "scenario_C =
     \<lparr>heading = Some ''Q3 Summary'', pathname = ''/reports'', query = ''report_id=42'',
      segments = [''reports''], url = ''/reports?report_id=42''\<rparr>"

definition user_location :: location where
  "user_location =
     \<lparr>loc_pathname = ''/users/123e4567-e89b-12d3-a456-426614174000'', loc_query = []\<rparr>"

definition reports_location :: location where
  "reports_location = \<lparr>loc_pathname = ''/reports'', loc_query = ''report_id=42''\<rparr>"

definition docs_location :: location where
  "docs_location = \<lparr>loc_pathname = ''/docs'', loc_query = []\<rparr>"

definition admin_location :: location where
  "admin_location = \<lparr>loc_pathname = ''/dashboard/admin/users'', loc_query = []\<rparr>"

definition user_entry :: "string \<Rightarrow> SidebarHistoryEntry" where
  "user_entry l = example_entry ''/users/123e4567-e89b-12d3-a456-426614174000'' l 1"

text \<open>The user page visited at time 1, and then the docs page at time 2.\<close>

definition visited_user :: banner where
  "visited_user = step plain_props initial (Navigate user_location (env_at 1 None))"

definition visited_user_docs :: banner where
  "visited_user_docs = step plain_props visited_user (Navigate docs_location (env_at 2 None))"

text \<open>The docs page visited at time 1, and then the user page at time 2.\<close>

definition two_visits :: "event list" where
  "two_visits = [Navigate docs_location (env_at 1 None), Navigate user_location (env_at 2 None)]"

section \<open>Helper lemmas\<close>

subsection \<open>Strings and the identifier pattern\<close>

lemma startsWith_iff: "startsWith s p \<longleftrightarrow> (\<exists>r. s = p @ r)"
proof
  assume "startsWith s p"
  then have "s = p @ drop (length p) s"
    by (metis append_take_drop_id startsWith_def)
  then show "\<exists>r. s = p @ r" ..
next
  assume "\<exists>r. s = p @ r"
  then show "startsWith s p" by (auto simp: startsWith_def)
qed

lemma hex_class: "class_matches_i (Class ''0123456789abcdef'') c = hex_digit c"
  by (simp add: hex_digit_def toUpperCase_def lower_letters_def upper_letters_def) 

lemma version_class: "class_matches_i (Class ''12345'') c = (c \<in> set ''12345'')"
  by (simp add: toUpperCase_def lower_letters_def upper_letters_def) 

lemma variant_class: "class_matches_i (Class ''89ab'') c = (c \<in> set ''89abAB'')"
  by (simp add: toUpperCase_def lower_letters_def upper_letters_def) 

lemma dash_class: "class_matches_i (Literal CHR ''-'') c = (c = CHR ''-'')"
  by (simp add: toUpperCase_def lower_letters_def upper_letters_def) 


lemma regex_test_cons:
  "regex_test ((cls, n) # rest) s =
     (\<exists>a b. s = a @ b \<and> length a = n \<and> list_all (class_matches_i cls) a \<and> regex_test rest b)"
proof
  assume "regex_test ((cls, n) # rest) s"
  then have "s = take n s @ drop n s \<and> length (take n s) = n
      \<and> list_all (class_matches_i cls) (take n s) \<and> regex_test rest (drop n s)"
    by simp
  then show "\<exists>a b. s = a @ b \<and> length a = n \<and> list_all (class_matches_i cls) a \<and> regex_test rest b"
    by blast
next
  assume "\<exists>a b. s = a @ b \<and> length a = n \<and> list_all (class_matches_i cls) a \<and> regex_test rest b"
  then show "regex_test ((cls, n) # rest) s"
    by auto
qed

lemma split_not_Nil: "split sep s \<noteq> []"
  by (induction s) (auto split: list.splits)

lemma split_no_sep: "sep \<notin> set a \<Longrightarrow> split sep a = [a]"
  by (induction a) auto

lemma split_append: "sep \<notin> set a \<Longrightarrow> split sep (a @ sep # r) = a # split sep r"
  by (induction a) (auto simp: split_not_Nil split: list.splits)

lemma join_split: "join [sep] (split sep s) = s"
proof (induction s)
  case Nil
  then show ?case by simp
next
  case (Cons c cs)
  show ?case
  proof (cases "c = sep")
    case True
    then show ?thesis
      using Cons split_not_Nil [of sep cs] by (cases "split sep cs") auto
  next
    case False
    then show ?thesis
      using Cons split_not_Nil [of sep cs]
      by (cases "split sep cs"; cases "tl (split sep cs)") auto
  qed
qed

lemma dash_not_hex: "\<not> hex_digit CHR ''-''"
  by (simp add: hex_digit_def)

lemma hex_digit_not_dash: "list_all hex_digit g \<Longrightarrow> CHR ''-'' \<notin> set g"
  using dash_not_hex unfolding list_all_iff by blast

lemma hex_class_fun: "class_matches_i (Class ''0123456789abcdef'') = hex_digit"
  by (rule ext) (rule hex_class)

lemma step_hex:
  "regex_test ((Class ''0123456789abcdef'', n) # rest) s =
     (\<exists>a b. s = a @ b \<and> length a = n \<and> list_all hex_digit a \<and> regex_test rest b)"
  unfolding regex_test_cons hex_class_fun by (rule refl)

lemma step_one:
  "regex_test ((cls, 1) # rest) s =
     (\<exists>x b. s = x # b \<and> class_matches_i cls x \<and> regex_test rest b)"
proof (cases s)
  case Nil
  then show ?thesis by simp
next
  case (Cons c cs)
  then show ?thesis by (simp del: class_matches_i.simps)
qed

lemma step_dash:
  "regex_test ((Literal CHR ''-'', 1) # rest) s = (\<exists>b. s = CHR ''-'' # b \<and> regex_test rest b)"
  unfolding step_one dash_class by blast

lemma step_version:
  "regex_test ((Class ''12345'', 1) # rest) s =
     (\<exists>v b. s = v # b \<and> v \<in> set ''12345'' \<and> regex_test rest b)"
  unfolding step_one version_class by (rule refl)

lemma step_variant:
  "regex_test ((Class ''89ab'', 1) # rest) s =
     (\<exists>w b. s = w # b \<and> w \<in> set ''89abAB'' \<and> regex_test rest b)"
  unfolding step_one variant_class by (rule refl)

lemma uuid_structure:
  "regex_test UUID_PATTERN s \<longleftrightarrow>
     (\<exists>g1 g2 v g3 w g4 g5.
        s = g1 @ CHR ''-'' # g2 @ CHR ''-'' # v # g3 @ CHR ''-'' # w # g4 @ CHR ''-'' # g5
        \<and> length g1 = 8 \<and> length g2 = 4 \<and> length g3 = 3 \<and> length g4 = 3 \<and> length g5 = 12
        \<and> list_all hex_digit g1 \<and> list_all hex_digit g2 \<and> list_all hex_digit g3
        \<and> list_all hex_digit g4 \<and> list_all hex_digit g5
        \<and> v \<in> set ''12345'' \<and> w \<in> set ''89abAB'')"
  unfolding UUID_PATTERN_def step_hex step_dash step_version step_variant regex_test.simps(1)
proof (intro iffI; elim exE conjE)
  fix a1 b1 b2 a2 b3 b4 v b5 a3 b6 b7 w b8 a4 b9 b10 a5 b11
  assume "s = a1 @ b1" "b1 = CHR ''-'' # b2" "b2 = a2 @ b3" "b3 = CHR ''-'' # b4" "b4 = v # b5"
    "b5 = a3 @ b6" "b6 = CHR ''-'' # b7" "b7 = w # b8" "b8 = a4 @ b9" "b9 = CHR ''-'' # b10"
    "b10 = a5 @ b11" "b11 = []"
  then have "s = a1 @ CHR ''-'' # a2 @ CHR ''-'' # v # a3 @ CHR ''-'' # w # a4 @ CHR ''-'' # a5"
    by simp
  moreover assume "length a1 = 8" "length a2 = 4" "length a3 = 3" "length a4 = 3" "length a5 = 12"
    "list_all hex_digit a1" "list_all hex_digit a2" "list_all hex_digit a3" "list_all hex_digit a4"
    "list_all hex_digit a5" "v \<in> set ''12345''" "w \<in> set ''89abAB''"
  ultimately show "\<exists>g1 g2 v g3 w g4 g5.
        s = g1 @ CHR ''-'' # g2 @ CHR ''-'' # v # g3 @ CHR ''-'' # w # g4 @ CHR ''-'' # g5
        \<and> length g1 = 8 \<and> length g2 = 4 \<and> length g3 = 3 \<and> length g4 = 3 \<and> length g5 = 12
        \<and> list_all hex_digit g1 \<and> list_all hex_digit g2 \<and> list_all hex_digit g3
        \<and> list_all hex_digit g4 \<and> list_all hex_digit g5
        \<and> v \<in> set ''12345'' \<and> w \<in> set ''89abAB''"
    by (intro exI conjI)
next
  fix g1 g2 v g3 w g4 g5
  assume s: "s = g1 @ CHR ''-'' # g2 @ CHR ''-'' # v # g3 @ CHR ''-'' # w # g4 @ CHR ''-'' # g5"
    and l: "length g1 = 8" "length g2 = 4" "length g3 = 3" "length g4 = 3" "length g5 = 12"
    "list_all hex_digit g1" "list_all hex_digit g2" "list_all hex_digit g3" "list_all hex_digit g4"
    "list_all hex_digit g5" "v \<in> set ''12345''" "w \<in> set ''89abAB''"
  have e: "g5 = g5 @ []" by simp
  show "\<exists>a b. s = a @ b \<and> length a = 8 \<and> list_all hex_digit a \<and>
          (\<exists>ba. b = CHR ''-'' # ba \<and>
            (\<exists>a b. ba = a @ b \<and> length a = 4 \<and> list_all hex_digit a \<and>
              (\<exists>ba. b = CHR ''-'' # ba \<and>
                (\<exists>v b. ba = v # b \<and> v \<in> set ''12345'' \<and>
                  (\<exists>a ba. b = a @ ba \<and> length a = 3 \<and> list_all hex_digit a \<and>
                    (\<exists>b. ba = CHR ''-'' # b \<and>
                      (\<exists>w ba. b = w # ba \<and> w \<in> set ''89abAB'' \<and>
                        (\<exists>a b. ba = a @ b \<and> length a = 3 \<and> list_all hex_digit a \<and>
                          (\<exists>ba. b = CHR ''-'' # ba \<and>
                            (\<exists>a b. ba = a @ b \<and> length a = 12 \<and> list_all hex_digit a \<and> b = []))))))))))"
    by (intro exI conjI; (rule s l refl e)?)
qed

subsection \<open>Title-casing and the last segments\<close>

lemma length_replace_word_starts: "length (replace_word_starts prev s) = length s"
  by (induction s arbitrary: prev) auto

lemma replace_word_starts_nth:
  "i < length s \<Longrightarrow>
     replace_word_starts prev s ! i =
       (if is_word_char (s ! i) \<and> \<not> (if i = 0 then prev else is_word_char (s ! (i - 1)))
        then toUpperCase (s ! i) else s ! i)"
proof (induction s arbitrary: prev i)
  case Nil
  then show ?case by simp
next
  case (Cons c cs)
  show ?case
  proof (cases i)
    case 0
    then show ?thesis by simp
  next
    case (Suc j)
    with Cons.prems have "j < length cs" by simp
    from Cons.IH [OF this, of "is_word_char c"] Suc show ?thesis
      by (cases j) simp_all
  qed
qed

lemma space_not_word: "\<not> is_word_char CHR '' ''"
  by (simp add: is_word_char_def lower_letters_def upper_letters_def digits_def)

lemma word_char_iff:
  "is_word_char c \<longleftrightarrow> is_letter_or_digit c \<or> c = CHR ''_''"
  unfolding is_word_char_def is_letter_or_digit_def by auto

lemma dash_not_letter: "\<not> is_letter_or_digit CHR ''-''" "\<not> is_letter_or_digit CHR ''_''"
  by (simp_all add: is_letter_or_digit_def lower_letters_def upper_letters_def digits_def)

lemma toTitleCase_nth:
  assumes "i < length s"
  shows "toTitleCase s ! i =
     (if s ! i = CHR ''-'' \<or> s ! i = CHR ''_'' then CHR '' ''
      else if is_letter_or_digit (s ! i) \<and> (i = 0 \<or> \<not> is_letter_or_digit (s ! (i - 1)))
      then toUpperCase (s ! i) else s ! i)"
proof -
  let ?r = "replace_dash_underscore s"
  have r: "?r ! j = (if s ! j = CHR ''-'' \<or> s ! j = CHR ''_'' then CHR '' '' else s ! j)"
    if "j < length s" for j
    using that by (simp add: replace_dash_underscore_def)
  have w: "is_word_char (?r ! j) \<longleftrightarrow> is_letter_or_digit (s ! j)" if "j < length s" for j
    using that r [OF that] space_not_word dash_not_letter
    by (auto simp: word_char_iff)
  have len: "length ?r = length s" by (simp add: replace_dash_underscore_def)
  have "toTitleCase s ! i =
      (if is_word_char (?r ! i) \<and> \<not> (if i = 0 then False else is_word_char (?r ! (i - 1)))
        then toUpperCase (?r ! i) else ?r ! i)"
    unfolding toTitleCase_def using assms len by (simp add: replace_word_starts_nth)
  also have "\<dots> = (if s ! i = CHR ''-'' \<or> s ! i = CHR ''_'' then CHR '' ''
      else if is_letter_or_digit (s ! i) \<and> (i = 0 \<or> \<not> is_letter_or_digit (s ! (i - 1)))
      then toUpperCase (s ! i) else s ! i)"
  proof (cases i)
    case 0
    then show ?thesis using w [OF assms] r [OF assms] dash_not_letter by auto
  next
    case (Suc j)
    then have j: "i - 1 < length s" using assms by simp
    show ?thesis using w [OF assms] w [OF j] r [OF assms] dash_not_letter Suc by auto
  qed
  finally show ?thesis .
qed

lemma drop_last2:
  assumes "2 \<le> length xs"
  shows "drop (length xs - 2) xs = [xs ! (length xs - 2), xs ! (length xs - 1)]"
proof -
  have a: "drop (length xs - 2) xs = xs ! (length xs - 2) # drop (Suc (length xs - 2)) xs"
    using assms by (intro Cons_nth_drop_Suc [symmetric]) simp
  have b: "drop (length xs - 1) xs = xs ! (length xs - 1) # drop (Suc (length xs - 1)) xs"
    using assms by (intro Cons_nth_drop_Suc [symmetric]) simp
  have c: "Suc (length xs - 2) = length xs - 1" using assms by simp
  show ?thesis using a b c assms by simp
qed

lemma at_index_second_last:
  "at_index xs (int (length xs) - 2) = (if 2 \<le> length xs then Some (xs ! (length xs - 2)) else None)"
  by (auto simp: at_index_def nat_diff_distrib')

lemma at_index_last:
  "xs \<noteq> [] \<Longrightarrow> at_index xs (int (length xs) - 1) = Some (last xs)"
  by (cases xs rule: rev_cases) (auto simp: at_index_def nat_diff_distrib' nth_append)

lemma heading_not_empty: "getCurrentPageHeading t \<noteq> Some []"
  by (simp add: getCurrentPageHeading_def split: option.splits)

lemma path_segments_not_empty: "[] \<notin> set (path_segments x)"
  by (simp add: path_segments_def)

lemma heading_label_nonempty:
  assumes "segments c \<noteq> []" and "heading c = Some h" and "h \<noteq> []"
  shows
    "(list_ex (regex_test UUID_PATTERN) (segments c) \<longrightarrow>
        defaultLabelResolver c =
          (if 2 \<le> length (segments c) \<and> segments c ! (length (segments c) - 2) \<noteq> []
           then toTitleCase (segments c ! (length (segments c) - 2)) @ '' / '' @ h
           else h))
     \<and> (\<not> list_ex (regex_test UUID_PATTERN) (segments c) \<and> includes_str (query c) ''_id='' \<longrightarrow>
        defaultLabelResolver c =
          (if last (segments c) \<noteq> []
           then toTitleCase (last (segments c)) @ '' / '' @ h
           else h))"
  using assms
  by (simp add: defaultLabelResolver_def heading_label_def at_index_second_last at_index_last)

subsection \<open>Reading and writing the backend\<close>

lemma readHistory_stored:
  "readHistory t (localStorage s) (storageKey p) cap = (if t then [] else take cap (stored p s))"
  by (simp add: readHistory_def readHistory_try_def getItem_def JSON_parse_def stored_def
      split: option.splits item.splits parsed.splits)

lemma readHistory_length: "length (readHistory t ls k cap) \<le> cap"
  by (simp add: readHistory_def readHistory_try_def getItem_def JSON_parse_def
      split: option.splits item.splits parsed.splits)

lemma stored_writeHistory:
  "stored p (s\<lparr>localStorage := writeHistory t (localStorage s) (storageKey p) xs cap, entries := ys\<rparr>)
     = (if t then stored p s else take cap xs)"
  by (simp add: stored_def writeHistory_def setItem_def JSON_stringify_def)

lemma writeHistory_other_keys:
  "k \<noteq> k' \<Longrightarrow> writeHistory t ls k xs cap k' = ls k'"
  by (simp add: writeHistory_def setItem_def)

lemma writeHistory_throws: "writeHistory True ls k xs cap = ls"
  by (simp add: writeHistory_def setItem_def)

lemma stored_simps [simp]:
  "stored p (s\<lparr>entries := ys\<rparr>) = stored p s"
  "stored p (s\<lparr>timer := tm\<rparr>) = stored p s"
  by (simp_all add: stored_def)

subsection \<open>The callback of the refinement\<close>

lemma findIndex_None: "findIndex P xs = None \<longleftrightarrow> (\<forall>x \<in> set xs. \<not> P x)"
  by (induction xs) auto

lemma findIndex_Some:
  "findIndex P xs = Some i \<Longrightarrow> i < length xs \<and> P (xs ! i) \<and> (\<forall>j < i. \<not> P (xs ! j))"
proof (induction xs arbitrary: i)
  case Nil
  then show ?case by simp
next
  case (Cons x xs)
  show ?case
  proof (cases "P x")
    case True
    with Cons.prems show ?thesis by simp
  next
    case False
    with Cons.prems obtain i' where i': "findIndex P xs = Some i'" "i = Suc i'"
      by auto
    from Cons.IH [OF i'(1)] False i'(2) show ?thesis
      by (auto simp: less_Suc_eq_0_disj)
  qed
qed

lemma find_findIndex: "find P xs = map_option (\<lambda>i. xs ! i) (findIndex P xs)"
  by (induction xs) (auto simp: option.map_comp comp_def)

lemma refine_cases:
  fixes p l e s
  defines "h \<equiv> getCurrentPageHeading (h1_text e)"
    and "loaded \<equiv> readHistory (getItem_throws e) (localStorage s) (storageKey p) (maxHistory p)"
    and "k \<equiv> currentUrl (loc_pathname l) (basePath p) (loc_query l)"
  defines "updated \<equiv> resolveLabel (labelResolver p) (label_context p l h)"
  shows "refine p l e s = s
     \<or> (\<exists>i. h \<noteq> None \<and> findIndex (\<lambda>entry. key entry = k) loaded = Some i
            \<and> label (loaded ! i) \<noteq> updated
            \<and> refine p l e s =
                s\<lparr>localStorage := writeHistory (setItem_throws e) (localStorage s) (storageKey p)
                                    (loaded[i := (loaded ! i)\<lparr>label := updated\<rparr>]) (maxHistory p),
                  entries := loaded[i := (loaded ! i)\<lparr>label := updated\<rparr>]\<rparr>)"
  unfolding refine_def h_def loaded_def k_def updated_def Let_def
  by (auto simp: truthy_def split: option.splits)

lemma refine_noop:
  fixes p l e s
  defines "h \<equiv> getCurrentPageHeading (h1_text e)"
    and "loaded \<equiv> readHistory (getItem_throws e) (localStorage s) (storageKey p) (maxHistory p)"
    and "k \<equiv> currentUrl (loc_pathname l) (basePath p) (loc_query l)"
  defines "updated \<equiv> resolveLabel (labelResolver p) (label_context p l h)"
  shows "h = None \<Longrightarrow> refine p l e s = s"
    and "findIndex (\<lambda>entry. key entry = k) loaded = None \<Longrightarrow> refine p l e s = s"
    and "findIndex (\<lambda>entry. key entry = k) loaded = Some i \<Longrightarrow> label (loaded ! i) = updated
          \<Longrightarrow> refine p l e s = s"
  unfolding refine_def h_def loaded_def k_def updated_def Let_def
  by (auto simp: truthy_def split: option.splits)

lemma relabel_frame:
  assumes "i < length xs"
  shows "length (xs[i := (xs ! i)\<lparr>label := u\<rparr>]) = length xs"
    and "\<forall>j < length xs. j \<noteq> i \<longrightarrow> xs[i := (xs ! i)\<lparr>label := u\<rparr>] ! j = xs ! j"
    and "key (xs[i := (xs ! i)\<lparr>label := u\<rparr>] ! i) = key (xs ! i)"
    and "SidebarHistoryEntry.url (xs[i := (xs ! i)\<lparr>label := u\<rparr>] ! i) = SidebarHistoryEntry.url (xs ! i)"
    and "visitedAt (xs[i := (xs ! i)\<lparr>label := u\<rparr>] ! i) = visitedAt (xs ! i)"
    and "label (xs[i := (xs ! i)\<lparr>label := u\<rparr>] ! i) = u"
    and "map key (xs[i := (xs ! i)\<lparr>label := u\<rparr>]) = map key xs"
    and "map visitedAt (xs[i := (xs ! i)\<lparr>label := u\<rparr>]) = map visitedAt xs"
  using assms by (simp_all add: map_update list_update_same_conv)

lemma heading_truthy: "truthy (getCurrentPageHeading t) \<longleftrightarrow> getCurrentPageHeading t \<noteq> None"
  by (auto simp: truthy_def getCurrentPageHeading_def split: option.splits)

subsection \<open>Capture as an upsert\<close>

lemma stored_writeHistory':
  "stored p (s\<lparr>localStorage := writeHistory t (localStorage s) (storageKey p) xs cap\<rparr>)
     = (if t then stored p s else take cap xs)"
  by (simp add: stored_def writeHistory_def setItem_def JSON_stringify_def)

lemma capture_effect:
  fixes p l e s
  defines "loaded \<equiv> readHistory (getItem_throws e) (localStorage s) (storageKey p) (maxHistory p)"
    and "k \<equiv> currentUrl (loc_pathname l) (basePath p) (loc_query l)"
  defines "x \<equiv> \<lparr>key = k, SidebarHistoryEntry.url = k,
                 label = resolveLabel (labelResolver p)
                           (label_context p l (getCurrentPageHeading (h1_text e))),
                 visitedAt = now e\<rparr>"
  shows "isIgnored (loc_pathname l) (basePath p) (ignorePaths p) \<Longrightarrow> capture p l e s = s"
    and "\<not> isIgnored (loc_pathname l) (basePath p) (ignorePaths p) \<Longrightarrow>
           entries (capture p l e s) = upsert (maxHistory p) x loaded
           \<and> stored p (capture p l e s)
               = (if setItem_throws e then stored p s else upsert (maxHistory p) x loaded)"
  unfolding loaded_def k_def x_def upsert_def capture_def Let_def
  by (simp_all add: stored_writeHistory')

lemma upsert_length: "length (upsert cap x xs) \<le> cap"
  by (simp add: upsert_def)

lemma distinct_key_filter: "distinct (map key xs) \<Longrightarrow> distinct (map key (filter P xs))"
  by (simp add: distinct_map_filter)

lemma distinct_key_take: "distinct (map key xs) \<Longrightarrow> distinct (map key (take n xs))"
  by (simp add: take_map [symmetric])

lemma upsert_distinct: "distinct (map key xs) \<Longrightarrow> distinct (map key (upsert cap x xs))"
  unfolding upsert_def
  by (intro distinct_key_take) (auto simp: distinct_map_filter)

lemma newest_first_filter: "newest_first xs \<Longrightarrow> newest_first (filter P xs)"
  unfolding newest_first_def sorted_wrt_map by (rule sorted_wrt_filter)

lemma newest_first_take: "newest_first xs \<Longrightarrow> newest_first (take n xs)"
  unfolding newest_first_def sorted_wrt_map by (rule sorted_wrt_take)

lemma newest_first_upsert:
  "newest_first xs \<Longrightarrow> \<forall>y \<in> set xs. visitedAt y \<le> visitedAt x \<Longrightarrow> newest_first (upsert cap x xs)"
  unfolding upsert_def
  by (intro newest_first_take) (use newest_first_filter [of xs] in \<open>auto simp: newest_first_def\<close>)

lemma set_upsert: "set (upsert cap x xs) \<subseteq> insert x (set xs)"
  unfolding upsert_def using set_take_subset [of cap "x # filter (\<lambda>entry. key entry \<noteq> key x) xs"]
  by auto

lemma filter_key_length:
  "distinct (map key xs) \<Longrightarrow> k \<in> key ` set xs
     \<Longrightarrow> Suc (length (filter (\<lambda>entry. key entry \<noteq> k) xs)) = length xs"
proof (induction xs)
  case Nil
  then show ?case by simp
next
  case (Cons a xs)
  show ?case
  proof (cases "key a = k")
    case True
    with Cons.prems have "k \<notin> key ` set xs" by auto
    then have "filter (\<lambda>entry. key entry \<noteq> k) xs = xs"
      by (auto simp: filter_id_conv)
    with True show ?thesis by simp
  next
    case False
    with Cons show ?thesis by auto
  qed
qed

lemma upsert_present:
  assumes "distinct (map key xs)" "key x \<in> key ` set xs" "length xs \<le> cap"
  shows "upsert cap x xs = x # filter (\<lambda>entry. key entry \<noteq> key x) xs"
    and "length (upsert cap x xs) = length xs"
proof -
  from filter_key_length [OF assms(1,2)]
  have l: "Suc (length (filter (\<lambda>entry. key entry \<noteq> key x) xs)) = length xs" .
  with assms(3) show "upsert cap x xs = x # filter (\<lambda>entry. key entry \<noteq> key x) xs"
    unfolding upsert_def by simp
  with l show "length (upsert cap x xs) = length xs" by simp
qed

subsection \<open>What a step preserves\<close>

lemma schedule_simps [simp]:
  "entries (schedule p l s) = entries s"
  "localStorage (schedule p l s) = localStorage s"
  "stored p' (schedule p l s) = stored p' s"
  by (simp_all add: schedule_def stored_def)

lemma clearTimeout_simps [simp]:
  "entries (clearTimeout s) = entries s"
  "localStorage (clearTimeout s) = localStorage s"
  "stored p (clearTimeout s) = stored p s"
  "timer (clearTimeout s) = None"
  by (simp_all add: clearTimeout_def stored_def)

lemma newest_first_Nil [simp]: "newest_first []"
  by (simp add: newest_first_def)

lemma loaded_props:
  fixes p s t
  defines "loaded \<equiv> readHistory t (localStorage s) (storageKey p) (maxHistory p)"
  shows "length loaded \<le> maxHistory p"
    and "distinct (map key (stored p s)) \<Longrightarrow> distinct (map key loaded)"
    and "newest_first (stored p s) \<Longrightarrow> newest_first loaded"
    and "set loaded \<subseteq> set (stored p s)"
  unfolding loaded_def readHistory_stored
  by (auto simp: distinct_key_take newest_first_take dest: in_set_takeD)

lemma remove_effect:
  "entries (removeEntry p k e s) = filter (\<lambda>entry. key entry \<noteq> k) (entries s)"
  "stored p (removeEntry p k e s)
     = (if setItem_throws e then stored p s
        else take (maxHistory p) (filter (\<lambda>entry. key entry \<noteq> k) (entries s)))"
  by (simp_all add: removeEntry_def Let_def stored_writeHistory')

lemma clear_effect:
  "entries (clearHistory p e s) = []"
  "stored p (clearHistory p e s) = (if setItem_throws e then stored p s else [])"
  by (simp_all add: clearHistory_def stored_writeHistory')

lemma refine_effect:
  fixes p l e s
  defines "loaded \<equiv> readHistory (getItem_throws e) (localStorage s) (storageKey p) (maxHistory p)"
  shows "refine p l e s = s
     \<or> (\<exists>next. length next = length loaded
          \<and> map key next = map key loaded
          \<and> map visitedAt next = map visitedAt loaded
          \<and> entries (refine p l e s) = next
          \<and> stored p (refine p l e s) = (if setItem_throws e then stored p s else next))"
proof -
  from refine_cases [of p l e s]
  consider "refine p l e s = s"
    | i u where "findIndex (\<lambda>entry. key entry = currentUrl (loc_pathname l) (basePath p) (loc_query l))
           loaded = Some i"
      "refine p l e s =
         s\<lparr>localStorage := writeHistory (setItem_throws e) (localStorage s) (storageKey p)
                             (loaded[i := (loaded ! i)\<lparr>label := u\<rparr>]) (maxHistory p),
           entries := loaded[i := (loaded ! i)\<lparr>label := u\<rparr>]\<rparr>"
    unfolding loaded_def by blast
  then show ?thesis
  proof cases
    case 1
    then show ?thesis by simp
  next
    case 2
    let ?next = "loaded[i := (loaded ! i)\<lparr>label := u\<rparr>]"
    from findIndex_Some [OF 2(1)] have b: "i < length loaded" by auto
    have len: "length ?next \<le> maxHistory p"
      using readHistory_length unfolding loaded_def by simp
    have "stored p (refine p l e s) = (if setItem_throws e then stored p s else ?next)"
      unfolding 2(2) stored_writeHistory using len by simp
    moreover have "entries (refine p l e s) = ?next"
      unfolding 2(2) by simp
    ultimately show ?thesis
      using relabel_frame(1,7,8) [OF b, of u] by blast
  qed
qed

lemma step_bounded_distinct:
  assumes "length (entries s) \<le> maxHistory p" "distinct (map key (entries s))"
    and "length (stored p s) \<le> maxHistory p" "distinct (map key (stored p s))"
  shows "length (entries (step p s ev)) \<le> maxHistory p
     \<and> distinct (map key (entries (step p s ev)))
     \<and> length (stored p (step p s ev)) \<le> maxHistory p
     \<and> distinct (map key (stored p (step p s ev)))"
proof (cases ev)
  case (Navigate l e)
  show ?thesis
  proof (cases "isIgnored (loc_pathname l) (basePath p) (ignorePaths p)")
    case True
    then show ?thesis using assms Navigate by (simp add: capture_effect(1))
  next
    case False
    from capture_effect(2) [OF False, of e "clearTimeout s"] assms
      loaded_props(2) [OF assms(4), where t = "getItem_throws e"]
    show ?thesis
      unfolding Navigate by (simp add: upsert_length upsert_distinct)
  qed
next
  case (TimerFires e)
  show ?thesis
  proof (cases "timer s")
    case None
    then show ?thesis using assms TimerFires by simp
  next
    case (Some l)
    from refine_effect [of p l e "clearTimeout s"]
      loaded_props(1,2) [where p = p and s = s and t = "getItem_throws e"] assms
    show ?thesis
      unfolding TimerFires using Some by (auto simp del: clearTimeout_simps(4))
  qed
next
  case (RemoveEntry k e)
  have "length (filter (\<lambda>entry. key entry \<noteq> k) (entries s)) \<le> maxHistory p"
    by (rule order_trans [OF length_filter_le assms(1)])
  then show ?thesis
    using assms unfolding RemoveEntry
    by (simp add: remove_effect distinct_key_filter distinct_key_take)
next
  case (ClearHistory e)
  then show ?thesis using assms by (simp add: clear_effect)
next
  case Unmount
  then show ?thesis using assms by simp
qed

lemma timer_capture [simp]: "timer (capture p l e s) = timer s"
  by (simp add: capture_def Let_def)

lemma refine_frame_lemma:
  fixes p l e s
  defines "loaded \<equiv> readHistory (getItem_throws e) (localStorage s) (storageKey p) (maxHistory p)"
    and "k \<equiv> currentUrl (loc_pathname l) (basePath p) (loc_query l)"
  shows "refine p l e s = s
     \<or> (length (entries (refine p l e s)) = length loaded
        \<and> (\<forall>j < length loaded. key (loaded ! j) \<noteq> k \<longrightarrow> entries (refine p l e s) ! j = loaded ! j)
        \<and> map key (entries (refine p l e s)) = map key loaded
        \<and> map visitedAt (entries (refine p l e s)) = map visitedAt loaded
        \<and> timer (refine p l e s) = timer s
        \<and> (localStorage (refine p l e s) = localStorage s
            \<or> stored p (refine p l e s) = entries (refine p l e s)))"
proof -
  define h where "h = getCurrentPageHeading (h1_text e)"
  define updated where "updated = resolveLabel (labelResolver p) (label_context p l h)"
  from refine_cases [of p l e s]
  consider "refine p l e s = s"
    | i where "findIndex (\<lambda>entry. key entry = k) loaded = Some i"
      "refine p l e s =
         s\<lparr>localStorage := writeHistory (setItem_throws e) (localStorage s) (storageKey p)
                             (loaded[i := (loaded ! i)\<lparr>label := updated\<rparr>]) (maxHistory p),
           entries := loaded[i := (loaded ! i)\<lparr>label := updated\<rparr>]\<rparr>"
    unfolding loaded_def k_def h_def updated_def by blast
  then show ?thesis
  proof cases
    case 1
    then show ?thesis by simp
  next
    case 2
    let ?next = "loaded[i := (loaded ! i)\<lparr>label := updated\<rparr>]"
    from findIndex_Some [OF 2(1)] have b: "i < length loaded" "key (loaded ! i) = k"
      by auto
    have len: "length ?next \<le> maxHistory p"
      using readHistory_length unfolding loaded_def by simp
    have st: "stored p (refine p l e s) = (if setItem_throws e then stored p s else ?next)"
      unfolding 2(2) stored_writeHistory using len by simp
    have ls: "setItem_throws e \<Longrightarrow> localStorage (refine p l e s) = localStorage s"
      unfolding 2(2) by (simp add: writeHistory_throws)
    have en: "entries (refine p l e s) = ?next" and tm: "timer (refine p l e s) = timer s"
      unfolding 2(2) by simp_all
    have "\<forall>j < length loaded. key (loaded ! j) \<noteq> k \<longrightarrow> ?next ! j = loaded ! j"
      using b(2) by (metis nth_list_update_neq)
    then show ?thesis
      using relabel_frame [OF b(1), of updated] st ls en tm
      by (cases "setItem_throws e") simp_all
  qed
qed

lemma visit_times_snoc: "visit_times (evs @ [ev]) = visit_times evs @ visit_times [ev]"
  by (induction evs rule: visit_times.induct) simp_all

lemma run_Nil [simp]: "run p s [] = s"
  by (simp add: run_def)

lemma run_snoc [simp]: "run p s (evs @ [ev]) = step p (run p s evs) ev"
  by (simp add: run_def)

lemma newest_first_cong: "map visitedAt xs = map visitedAt ys \<Longrightarrow> newest_first xs = newest_first ys"
  by (simp add: newest_first_def)

lemma times_cong:
  assumes "map visitedAt xs = map visitedAt ys"
  shows "visitedAt ` set xs = visitedAt ` set ys"
proof -
  have "set (map visitedAt xs) = set (map visitedAt ys)" using assms by simp
  then show ?thesis by simp
qed

lemma step_newest_first:
  assumes "newest_first (entries s)" "newest_first (stored p s)"
    and "visitedAt ` (set (entries s) \<union> set (stored p s)) \<subseteq> A"
    and "\<forall>a \<in> A. \<forall>u \<in> set (visit_times [ev]). a \<le> u"
  shows "newest_first (entries (step p s ev)) \<and> newest_first (stored p (step p s ev))
     \<and> visitedAt ` (set (entries (step p s ev)) \<union> set (stored p (step p s ev)))
          \<subseteq> A \<union> set (visit_times [ev])"
proof (cases ev)
  case (Navigate l e)
  show ?thesis
  proof (cases "isIgnored (loc_pathname l) (basePath p) (ignorePaths p)")
    case True
    then show ?thesis using assms Navigate by (auto simp: capture_effect(1))
  next
    case False
    define loaded where
      "loaded = readHistory (getItem_throws e) (localStorage s) (storageKey p) (maxHistory p)"
    define x where "x = \<lparr>key = currentUrl (loc_pathname l) (basePath p) (loc_query l),
        SidebarHistoryEntry.url = currentUrl (loc_pathname l) (basePath p) (loc_query l),
        label = resolveLabel (labelResolver p) (label_context p l (getCurrentPageHeading (h1_text e))),
        visitedAt = now e\<rparr>"
    have vx: "visitedAt x = now e" by (simp add: x_def)
    have sub: "set loaded \<subseteq> set (stored p s)" and nl: "newest_first loaded"
      unfolding loaded_def using loaded_props(3,4) assms(2) by blast+
    have le: "\<forall>y \<in> set loaded. visitedAt y \<le> visitedAt x"
      using sub assms(3,4) vx unfolding Navigate by auto
    have nu: "newest_first (upsert (maxHistory p) x loaded)"
      by (rule newest_first_upsert [OF nl le])
    have su: "visitedAt ` set (upsert (maxHistory p) x loaded) \<subseteq> A \<union> {now e}"
      using set_upsert [of "maxHistory p" x loaded] sub assms(3) vx by auto
    from capture_effect(2) [OF False, of e "clearTimeout s"]
    have ce: "entries (step p s ev) = upsert (maxHistory p) x loaded"
      "stored p (step p s ev) = (if setItem_throws e then stored p s else upsert (maxHistory p) x loaded)"
      unfolding Navigate loaded_def x_def by simp_all
    show ?thesis
      unfolding ce using nu su assms(2,3) Navigate by auto
  qed
next
  case (TimerFires e)
  show ?thesis
  proof (cases "timer s")
    case None
    then show ?thesis using assms TimerFires by auto
  next
    case (Some l)
    define loaded where
      "loaded = readHistory (getItem_throws e) (localStorage s) (storageKey p) (maxHistory p)"
    have sub: "set loaded \<subseteq> set (stored p s)" and nl: "newest_first loaded"
      unfolding loaded_def using loaded_props(3,4) assms(2) by blast+
    have st: "step p s ev = refine p l e (clearTimeout s)"
      unfolding TimerFires using Some by simp
    from refine_effect [of p l e "clearTimeout s"]
    consider "refine p l e (clearTimeout s) = clearTimeout s"
      | next' where "map visitedAt next' = map visitedAt loaded"
        "entries (step p s ev) = next'"
        "stored p (step p s ev) = (if setItem_throws e then stored p s else next')"
      unfolding st loaded_def by auto
    then show ?thesis
    proof cases
      case 1
      then show ?thesis unfolding st using assms by auto
    next
      case 2
      have n: "newest_first next'"
        using newest_first_cong [OF 2(1)] nl by simp
      have t: "visitedAt ` set next' \<subseteq> A"
        using times_cong [OF 2(1)] sub assms(3) by auto
      show ?thesis
        unfolding 2(2,3) using n t assms(2,3) by auto
    qed
  qed
next
  case (RemoveEntry k e)
  have "newest_first (filter (\<lambda>entry. key entry \<noteq> k) (entries s))"
    by (rule newest_first_filter [OF assms(1)])
  moreover have "newest_first (take (maxHistory p) (filter (\<lambda>entry. key entry \<noteq> k) (entries s)))"
    by (intro newest_first_take newest_first_filter assms(1))
  moreover have "set (take (maxHistory p) (filter (\<lambda>entry. key entry \<noteq> k) (entries s)))
      \<subseteq> set (entries s)"
    using set_take_subset [of "maxHistory p" "filter (\<lambda>entry. key entry \<noteq> k) (entries s)"]
    by auto
  ultimately show ?thesis
    using assms(2,3) unfolding RemoveEntry by (auto simp: remove_effect)
next
  case (ClearHistory e)
  then show ?thesis using assms by (auto simp: clear_effect)
next
  case Unmount
  then show ?thesis using assms by auto
qed

lemma step_in_sync:
  assumes "write_ok ev" "entries s = stored p s" "length (entries s) \<le> maxHistory p"
  shows "entries (step p s ev) = stored p (step p s ev)"
proof (cases ev)
  case (Navigate l e)
  show ?thesis
  proof (cases "isIgnored (loc_pathname l) (basePath p) (ignorePaths p)")
    case True
    then show ?thesis using assms Navigate by (simp add: capture_effect(1))
  next
    case False
    from capture_effect(2) [OF False, of e "clearTimeout s"] assms(1)
    show ?thesis unfolding Navigate by simp
  qed
next
  case (TimerFires e)
  show ?thesis
  proof (cases "timer s")
    case None
    then show ?thesis using assms TimerFires by simp
  next
    case (Some l)
    from refine_effect [of p l e "clearTimeout s"] assms
    show ?thesis
      unfolding TimerFires using Some by (auto simp del: clearTimeout_simps(4))
  qed
next
  case (RemoveEntry k e)
  have "length (filter (\<lambda>entry. key entry \<noteq> k) (entries s)) \<le> maxHistory p"
    by (rule order_trans [OF length_filter_le assms(3)])
  then show ?thesis
    using assms unfolding RemoveEntry by (simp add: remove_effect)
next
  case (ClearHistory e)
  then show ?thesis using assms by (simp add: clear_effect)
next
  case Unmount
  then show ?thesis using assms by simp
qed

subsection \<open>Invariants of a run\<close>

lemma initial_simps [simp]:
  "entries initial = []" "stored p initial = []" "timer initial = None"
  by (simp_all add: initial_def stored_def)

lemma run_bounded_distinct:
  "length (entries (run p initial evs)) \<le> maxHistory p
   \<and> distinct (map key (entries (run p initial evs)))
   \<and> length (stored p (run p initial evs)) \<le> maxHistory p
   \<and> distinct (map key (stored p (run p initial evs)))"
proof (induction evs rule: rev_induct)
  case Nil
  then show ?case by simp
next
  case (snoc ev evs)
  then show ?case using step_bounded_distinct [of "run p initial evs" p ev] by simp
qed

lemma run_newest_first:
  "sorted (visit_times evs) \<Longrightarrow>
     newest_first (entries (run p initial evs)) \<and> newest_first (stored p (run p initial evs))
     \<and> visitedAt ` (set (entries (run p initial evs)) \<union> set (stored p (run p initial evs)))
          \<subseteq> set (visit_times evs)"
proof (induction evs rule: rev_induct)
  case Nil
  then show ?case by simp
next
  case (snoc ev evs)
  from snoc.prems have s: "sorted (visit_times evs)"
    and le: "\<forall>a \<in> set (visit_times evs). \<forall>u \<in> set (visit_times [ev]). a \<le> u"
    by (simp_all add: visit_times_snoc sorted_append)
  from snoc.IH [OF s] step_newest_first [of "run p initial evs" p "set (visit_times evs)" ev] le
  show ?case by (simp add: visit_times_snoc)
qed

lemma run_in_sync:
  "list_all write_ok evs \<Longrightarrow> entries (run p initial evs) = stored p (run p initial evs)"
proof (induction evs rule: rev_induct)
  case Nil
  then show ?case by simp
next
  case (snoc ev evs)
  then have "write_ok ev" "entries (run p initial evs) = stored p (run p initial evs)"
    by simp_all
  then show ?case
    using step_in_sync [of ev "run p initial evs" p] run_bounded_distinct [of p evs] by simp
qed

subsection \<open>A trailing slash\<close>

lemma normalizePath_unconfigured: "\<not> truthy bp \<Longrightarrow> normalizePath x bp = x"
  by (cases bp) (simp_all add: normalizePath_def truthy_def)

lemma split_snoc: "split sep (s @ [sep]) = split sep s @ [[]]"
proof (induction s)
  case Nil
  then show ?case by simp
next
  case (Cons c cs)
  then show ?case
    using split_not_Nil [of sep cs] by (cases "split sep cs") auto
qed

lemma path_segments_trailing_slash: "path_segments (pth @ ''/'') = path_segments pth"
  using split_snoc [of "CHR ''/''" pth] by (simp add: path_segments_def)

lemma defaultLabelResolver_cong:
  "heading c = heading c' \<Longrightarrow> query c = query c' \<Longrightarrow> segments c = segments c'
     \<Longrightarrow> defaultLabelResolver c = defaultLabelResolver c'"
  by (simp add: defaultLabelResolver_def cong: option.case_cong if_cong)

lemma upsert_Cons: "0 < cap \<Longrightarrow> \<exists>r. upsert cap x xs = x # r"
  by (cases cap) (simp_all add: upsert_def)

lemma upsert_Cons2:
  "2 \<le> cap \<Longrightarrow> key y \<noteq> key x \<Longrightarrow> \<exists>r. upsert cap x (y # ys) = x # y # r"
proof -
  assume "2 \<le> cap" "key y \<noteq> key x"
  then obtain m where "cap = Suc (Suc m)"
    by (metis add_2_eq_Suc le_Suc_ex)
  with \<open>key y \<noteq> key x\<close> show ?thesis by (simp add: upsert_def)
qed

subsection \<open>Runs that differ in their timestamps only\<close>

lemma untimed_simps [simp]:
  "key (untimed x) = key x" "label (untimed x) = label x"
  "SidebarHistoryEntry.url (untimed x) = SidebarHistoryEntry.url x"
  "untimed (x\<lparr>label := u\<rparr>) = (untimed x)\<lparr>label := u\<rparr>"
  by (simp_all add: untimed_def)

lemma untimed_filter:
  "map untimed (filter (\<lambda>entry. key entry \<noteq> k) xs)
     = filter (\<lambda>entry. key entry \<noteq> k) (map untimed xs)"
  by (simp add: filter_map comp_def)

lemma untimed_upsert:
  "map untimed (upsert cap x xs)
     = take cap (untimed x # filter (\<lambda>entry. key entry \<noteq> key x) (map untimed xs))"
proof -
  have "map untimed (upsert cap x xs)
      = take cap (map untimed (x # filter (\<lambda>entry. key entry \<noteq> key x) xs))"
    unfolding upsert_def by (rule take_map [symmetric])
  then show ?thesis
    using untimed_filter [of "key x" xs] by simp
qed

lemma findIndex_map: "findIndex P (map f xs) = findIndex (\<lambda>x. P (f x)) xs"
  by (induction xs) auto

lemma find_map: "find P (map f xs) = map_option f (find (\<lambda>x. P (f x)) xs)"
  by (induction xs) auto

lemma untimed_relabel: "map untimed (relabel k u xs) = relabel k u (map untimed xs)"
proof (cases "findIndex (\<lambda>entry. key entry = k) xs")
  case None
  then show ?thesis by (simp add: relabel_def findIndex_map)
next
  case (Some i)
  from findIndex_Some [OF Some] have "i < length xs" by simp
  with Some show ?thesis by (simp add: relabel_def findIndex_map map_update)
qed

lemma untimed_needs_relabel: "needs_relabel k u (map untimed xs) = needs_relabel k u xs"
  by (simp add: needs_relabel_def find_map split: option.splits)

lemma refine_exact:
  fixes p l e s
  defines "loaded \<equiv> readHistory (getItem_throws e) (localStorage s) (storageKey p) (maxHistory p)"
    and "k \<equiv> currentUrl (loc_pathname l) (basePath p) (loc_query l)"
    and "u \<equiv> resolveLabel (labelResolver p) (label_context p l (getCurrentPageHeading (h1_text e)))"
  shows "refine p l e s =
     (if getCurrentPageHeading (h1_text e) \<noteq> None \<and> needs_relabel k u loaded
      then s\<lparr>localStorage := writeHistory (setItem_throws e) (localStorage s) (storageKey p)
                                (relabel k u loaded) (maxHistory p),
              entries := relabel k u loaded\<rparr>
      else s)"
  unfolding loaded_def k_def u_def refine_def Let_def needs_relabel_def relabel_def find_findIndex
  by (simp add: heading_truthy split: option.splits)


lemma stored_of_write:
  "localStorage s' = writeHistory w (localStorage s) (storageKey p) xs cap
     \<Longrightarrow> stored p s' = (if w then stored p s else take cap xs)"
  by (simp add: stored_def writeHistory_def setItem_def JSON_stringify_def)

lemma relabel_length [simp]: "length (relabel k u xs) = length xs"
  by (simp add: relabel_def split: option.splits)

lemma refine_effect_exact:
  fixes p l e s
  defines "loaded \<equiv> readHistory (getItem_throws e) (localStorage s) (storageKey p) (maxHistory p)"
    and "k \<equiv> currentUrl (loc_pathname l) (basePath p) (loc_query l)"
    and "u \<equiv> resolveLabel (labelResolver p) (label_context p l (getCurrentPageHeading (h1_text e)))"
  defines "changed \<equiv> getCurrentPageHeading (h1_text e) \<noteq> None \<and> needs_relabel k u loaded"
  shows "entries (refine p l e s) = (if changed then relabel k u loaded else entries s)"
    and "stored p (refine p l e s)
       = (if changed \<and> \<not> setItem_throws e then relabel k u loaded else stored p s)"
    and "timer (refine p l e s) = timer s"
proof -
  note r = refine_exact [of p l e s, folded loaded_def k_def u_def, folded changed_def]
  show "entries (refine p l e s) = (if changed then relabel k u loaded else entries s)"
    and "timer (refine p l e s) = timer s"
    unfolding r by simp_all
  have len: "length (relabel k u loaded) \<le> maxHistory p"
    using readHistory_length unfolding loaded_def by simp
  show "stored p (refine p l e s)
       = (if changed \<and> \<not> setItem_throws e then relabel k u loaded else stored p s)"
  proof (cases changed)
    case True
    then have "localStorage (refine p l e s)
        = writeHistory (setItem_throws e) (localStorage s) (storageKey p) (relabel k u loaded)
            (maxHistory p)"
      unfolding r by simp
    from stored_of_write [OF this] True len show ?thesis by simp
  next
    case False
    then show ?thesis unfolding r by simp
  qed
qed

lemma restamp_times: "visit_times (restamp n evs) = map (\<lambda>i. n + int i) [0..<length (visit_times evs)]"
proof (induction n evs rule: restamp.induct)
  case (1 n)
  then show ?case by simp
next
  case (2 n l e evs)
  have "map (\<lambda>i. n + int i) [0..<Suc (length (visit_times evs))]
      = n # map (\<lambda>i. n + 1 + int i) [0..<length (visit_times evs)]"
    by (simp add: upt_rec [of 0] map_Suc_upt [symmetric] del: upt_Suc)
  with 2 show ?case by simp
qed simp_all

lemma restamp_sorted: "sorted (visit_times (restamp n evs))"
  unfolding restamp_times by (simp add: sorted_map sorted_wrt_iff_nth_less)

lemma untimed_loaded:
  assumes "map untimed (stored p s) = map untimed (stored p t)"
  shows "map untimed (readHistory g (localStorage s) (storageKey p) (maxHistory p))
       = map untimed (readHistory g (localStorage t) (storageKey p) (maxHistory p))"
  unfolding readHistory_stored using assms by (simp add: take_map [symmetric])

lemma timer_remove_clear [simp]:
  "timer (removeEntry p k e s) = timer s" "timer (clearHistory p e s) = timer s"
  by (simp_all add: removeEntry_def clearHistory_def Let_def)

lemma step_same_untimed:
  assumes "same_untimed p s t"
    and "ev' = ev \<or> (\<exists>l e n. ev = Navigate l e \<and> ev' = Navigate l (e\<lparr>now := n\<rparr>))"
  shows "same_untimed p (step p s ev) (step p t ev')"
proof (cases ev)
  case (Navigate l e)
  with assms(2) obtain e' where ev': "ev' = Navigate l e'"
    and e': "h1_text e' = h1_text e" "getItem_throws e' = getItem_throws e"
      "setItem_throws e' = setItem_throws e"
    by auto
  show ?thesis
  proof (cases "isIgnored (loc_pathname l) (basePath p) (ignorePaths p)")
    case True
    then show ?thesis
      using assms(1) unfolding Navigate ev' by (simp add: capture_effect(1) same_untimed_def schedule_def)
  next
    case False
    note c = capture_effect(2) [OF False, of e "clearTimeout s"]
      capture_effect(2) [OF False, of e' "clearTimeout t"]
    from assms(1) have st: "map untimed (stored p s) = map untimed (stored p t)"
      by (simp add: same_untimed_def)
    note ld = untimed_loaded [OF st, of "getItem_throws e"]
    have tm: "timer (step p s ev) = timer (step p t ev')"
      unfolding Navigate ev' by (simp add: schedule_def)
    show ?thesis
      unfolding same_untimed_def
      using c st ld tm unfolding Navigate ev'
      by (simp add: untimed_upsert e' untimed_def)
  qed
next
  case (TimerFires e)
  with assms(2) have ev': "ev' = ev" by auto
  from assms(1) have st: "map untimed (stored p s) = map untimed (stored p t)"
    and tm: "timer s = timer t" and en: "map untimed (entries s) = map untimed (entries t)"
    by (simp_all add: same_untimed_def)
  show ?thesis
  proof (cases "timer s")
    case None
    then show ?thesis using assms(1) tm unfolding ev' TimerFires by simp
  next
    case (Some l)
    let ?k = "currentUrl (loc_pathname l) (basePath p) (loc_query l)"
    let ?u = "resolveLabel (labelResolver p) (label_context p l (getCurrentPageHeading (h1_text e)))"
    let ?ls = "readHistory (getItem_throws e) (localStorage s) (storageKey p) (maxHistory p)"
    let ?lt = "readHistory (getItem_throws e) (localStorage t) (storageKey p) (maxHistory p)"
    have ld: "map untimed ?ls = map untimed ?lt"
      by (rule untimed_loaded [OF st])
    have nr: "needs_relabel ?k ?u ?ls = needs_relabel ?k ?u ?lt"
      using untimed_needs_relabel [of ?k ?u ?ls] untimed_needs_relabel [of ?k ?u ?lt] ld by simp
    have rl: "map untimed (relabel ?k ?u ?ls) = map untimed (relabel ?k ?u ?lt)"
      using ld by (simp add: untimed_relabel)
    have rs: "step p s ev = refine p l e (clearTimeout s)"
      and rt: "step p t ev' = refine p l e (clearTimeout t)"
      unfolding ev' TimerFires using Some tm by simp_all
    note fs = refine_effect_exact [of p l e "clearTimeout s"]
    note ft = refine_effect_exact [of p l e "clearTimeout t"]
    show ?thesis
      unfolding same_untimed_def rs rt fs ft
      using nr rl en st
      by (cases "getCurrentPageHeading (h1_text e)") simp_all
  qed
next
  case (RemoveEntry k e)
  with assms(2) have ev': "ev' = ev" by auto
  from assms(1) have st: "map untimed (stored p s) = map untimed (stored p t)"
    and tm: "timer s = timer t" and en: "map untimed (entries s) = map untimed (entries t)"
    by (simp_all add: same_untimed_def)
  have f: "map untimed (filter (\<lambda>entry. key entry \<noteq> k) (entries s))
      = map untimed (filter (\<lambda>entry. key entry \<noteq> k) (entries t))"
    using en by (simp add: untimed_filter)
  then have "map untimed (take (maxHistory p) (filter (\<lambda>entry. key entry \<noteq> k) (entries s)))
      = map untimed (take (maxHistory p) (filter (\<lambda>entry. key entry \<noteq> k) (entries t)))"
    by (simp add: take_map [symmetric])
  with f show ?thesis
    unfolding same_untimed_def ev' RemoveEntry
    using st tm by (simp add: remove_effect)
next
  case (ClearHistory e)
  with assms(2) have ev': "ev' = ev" by auto
  show ?thesis
    using assms(1) unfolding same_untimed_def ev' ClearHistory
    by (simp add: clear_effect)
next
  case Unmount
  with assms(2) have ev': "ev' = ev" by auto
  show ?thesis
    using assms(1) unfolding same_untimed_def ev' Unmount by simp
qed

lemma run_Cons: "run p s (ev # evs) = run p (step p s ev) evs"
  by (simp add: run_def)

lemma run_same_untimed:
  "same_untimed p s t \<Longrightarrow> same_untimed p (run p s evs) (run p t (restamp n evs))"
proof (induction evs arbitrary: s t n)
  case Nil
  then show ?case by simp
next
  case (Cons ev evs)
  show ?case
  proof (cases ev)
    case (Navigate l e)
    have "same_untimed p (step p s (Navigate l e)) (step p t (Navigate l (e\<lparr>now := n\<rparr>)))"
      by (rule step_same_untimed [OF Cons.prems]) blast
    from Cons.IH [OF this] show ?thesis by (simp add: run_Cons Navigate)
  next
    case (TimerFires e)
    from Cons.IH [OF step_same_untimed [OF Cons.prems, of ev ev]]
    show ?thesis by (simp add: run_Cons TimerFires)
  next
    case (RemoveEntry k e)
    from Cons.IH [OF step_same_untimed [OF Cons.prems, of ev ev]]
    show ?thesis by (simp add: run_Cons RemoveEntry)
  next
    case (ClearHistory e)
    from Cons.IH [OF step_same_untimed [OF Cons.prems, of ev ev]]
    show ?thesis by (simp add: run_Cons ClearHistory)
  next
    case Unmount
    from Cons.IH [OF step_same_untimed [OF Cons.prems, of ev ev]]
    show ?thesis by (simp add: run_Cons Unmount)
  qed
qed

lemma run_restamp:
  "map untimed (entries (run p initial evs)) = map untimed (entries (run p initial (restamp 0 evs)))
   \<and> map untimed (stored p (run p initial evs)) = map untimed (stored p (run p initial (restamp 0 evs)))
   \<and> newest_first (entries (run p initial (restamp 0 evs)))
   \<and> newest_first (stored p (run p initial (restamp 0 evs)))"
proof -
  have "same_untimed p initial initial" by (simp add: same_untimed_def)
  from run_same_untimed [OF this, of evs 0] run_newest_first [OF restamp_sorted, of p 0 evs]
  show ?thesis by (simp add: same_untimed_def)
qed

section \<open>Location normalizer: normal form and canonical identity\<close>

text \<open>
  Claim C5. A prefix is configured when \<open>basePath\<close> is given and not empty. If the pathname
  starts with the prefix followed by \<open>/\<close>, the prefix is stripped; if the pathname is the
  prefix, the normalized path is \<open>/\<close>; in every other case the pathname is returned as it
  is, so normalization always yields a value. The canonical identity is the normalized
  path, followed by \<open>?\<close> and the query exactly when the query is not empty, and a captured
  navigation puts an entry with this identity as its key and its url at the head of the
  history.
\<close>

theorem normalize_canonical_identity:
  "(b \<noteq> [] \<longrightarrow> normalizePath (b @ ''/'' @ r) (Some b) = ''/'' @ r)
   \<and> (b \<noteq> [] \<and> startsWith pn (b @ ''/'') \<longrightarrow> b @ normalizePath pn (Some b) = pn)
   \<and> (b \<noteq> [] \<longrightarrow> normalizePath b (Some b) = ''/'')
   \<and> (\<not> startsWith pn (b @ ''/'') \<and> pn \<noteq> b \<longrightarrow> normalizePath pn (Some b) = pn)
   \<and> normalizePath pn None = pn
   \<and> normalizePath pn (Some []) = pn
   \<and> (q \<noteq> [] \<longrightarrow> currentUrl pn bp q = normalizePath pn bp @ ''?'' @ q)
   \<and> currentUrl pn bp [] = normalizePath pn bp
   \<and> (\<not> isIgnored (loc_pathname l) (basePath p) (ignorePaths p) \<and> 0 < maxHistory p \<longrightarrow>
        (\<exists>x xs. entries (capture p l e s) = x # xs
           \<and> key x = currentUrl (loc_pathname l) (basePath p) (loc_query l)
           \<and> SidebarHistoryEntry.url x = currentUrl (loc_pathname l) (basePath p) (loc_query l)))"
proof -
  have strip: "normalizePath (b @ ''/'' @ t) (Some b) = ''/'' @ t" if "b \<noteq> []" for t
    using that by (simp add: normalizePath_def startsWith_def)
  have strip': "b @ normalizePath pn (Some b) = pn" if "b \<noteq> []" "startsWith pn (b @ ''/'')"
  proof -
    from that(2) obtain t where "pn = (b @ ''/'') @ t"
      unfolding startsWith_iff by blast
    then show ?thesis using strip [OF that(1), of t] by simp
  qed
  have same: "normalizePath b (Some b) = ''/''" if "b \<noteq> []"
    using that by (simp add: normalizePath_def startsWith_def)
  have other: "normalizePath pn (Some b) = pn" if "\<not> startsWith pn (b @ ''/'')" "pn \<noteq> b"
    using that by (simp add: normalizePath_def)
  have cap: "\<exists>x xs. entries (capture p l e s) = x # xs
           \<and> key x = currentUrl (loc_pathname l) (basePath p) (loc_query l)
           \<and> SidebarHistoryEntry.url x = currentUrl (loc_pathname l) (basePath p) (loc_query l)"
    if "\<not> isIgnored (loc_pathname l) (basePath p) (ignorePaths p)" "0 < maxHistory p"
  proof -
    from that(2) obtain m where m: "maxHistory p = Suc m"
      by (cases "maxHistory p") auto
    show ?thesis using that(1) by (simp add: capture_def Let_def m)
  qed
  show ?thesis
    using strip strip' same other cap
    by (simp add: currentUrl_def normalizePath_def)
qed

theorem normalize_canonical_identity_witness:
  "startsWith ''/dashboard/docs'' (''/dashboard'' @ ''/'')
   \<and> normalizePath ''/dashboard/docs'' (Some ''/dashboard'') = ''/docs''
   \<and> normalizePath ''/dashboard'' (Some ''/dashboard'') = ''/''
   \<and> currentUrl ''/dashboard/docs'' (Some ''/dashboard'') ''tab=2'' = ''/docs?tab=2''
   \<and> \<not> isIgnored (loc_pathname example_location) (basePath example_props) (ignorePaths example_props)
   \<and> 0 < maxHistory example_props
   \<and> key (hd (entries (capture example_props example_location (env_at 7 None) initial)))
         = ''/docs?tab=2''
   \<and> SidebarHistoryEntry.url
         (hd (entries (capture example_props example_location (env_at 7 None) initial)))
         = ''/docs?tab=2''"
proof -
  have a: "\<not> isIgnored (loc_pathname example_location) (basePath example_props)
               (ignorePaths example_props)"
    by code_simp
  have b: "0 < maxHistory example_props"
    by code_simp
  have c: "startsWith ''/dashboard/docs'' (''/dashboard'' @ ''/'')"
    by code_simp
  have d: "currentUrl (loc_pathname example_location) (basePath example_props)
             (loc_query example_location) = ''/docs?tab=2''"
    by code_simp
  have e: "loc_pathname example_location = ''/dashboard/docs''
           \<and> basePath example_props = Some ''/dashboard''
           \<and> loc_query example_location = ''tab=2''"
    by code_simp
  note t = normalize_canonical_identity [where b = "''/dashboard''" and r = "''docs''"
      and pn = "''/dashboard/docs''" and q = "''tab=2''" and bp = "Some ''/dashboard''"
      and p = example_props and l = example_location and e = "env_at 7 None" and s = initial]
  from t a b obtain x xs where
    x: "entries (capture example_props example_location (env_at 7 None) initial) = x # xs"
       "key x = currentUrl (loc_pathname example_location) (basePath example_props)
                  (loc_query example_location)"
       "SidebarHistoryEntry.url x = currentUrl (loc_pathname example_location)
                  (basePath example_props) (loc_query example_location)"
    by blast
  from t c have "normalizePath ''/dashboard/docs'' (Some ''/dashboard'') = ''/docs''"
    by simp
  moreover from t have "normalizePath ''/dashboard'' (Some ''/dashboard'') = ''/''"
    by simp
  moreover from t have "currentUrl ''/dashboard/docs'' (Some ''/dashboard'') ''tab=2'' = ''/docs?tab=2''"
    using \<open>normalizePath ''/dashboard/docs'' (Some ''/dashboard'') = ''/docs''\<close> by simp
  ultimately show ?thesis
    using a b c x d by simp
qed

section \<open>History store: loading\<close>

text \<open>
  Claim C8. Loading never throws: whenever the body of the \<open>try\<close> block throws, the
  result is the empty list. A failing read, a missing key, an empty or unparsable text and
  a parsed value that is not a sequence all give the empty list; a stored sequence gives
  its first \<open>cap\<close> elements in their stored order, so at most \<open>cap\<close> of them.
\<close>

theorem readHistory_never_throws:
  "((\<exists>err. readHistory_try t ls k cap = Inl err) \<longrightarrow> readHistory t ls k cap = [])
   \<and> readHistory True ls k cap = []
   \<and> (ls k = None \<longrightarrow> readHistory False ls k cap = [])
   \<and> (ls k = Some EmptyText \<longrightarrow> readHistory False ls k cap = [])
   \<and> (ls k = Some BadText \<longrightarrow>
        readHistory_try False ls k cap = Inl SyntaxError \<and> readHistory False ls k cap = [])
   \<and> (ls k = Some (JsonText NotArray) \<longrightarrow> readHistory False ls k cap = [])
   \<and> (ls k = Some (JsonText (Array xs)) \<longrightarrow>
        readHistory False ls k cap = take cap xs
        \<and> length (readHistory False ls k cap) \<le> cap
        \<and> (\<forall>i < length (readHistory False ls k cap). readHistory False ls k cap ! i = xs ! i))"
  by (auto simp: readHistory_def readHistory_try_def getItem_def JSON_parse_def)

theorem readHistory_never_throws_witness:
  "readHistory True (backend_with (JsonText (Array [1, 2, 3 :: int]))) DEFAULT_STORAGE_KEY 2 = []
   \<and> readHistory False (Map.empty :: int storage) DEFAULT_STORAGE_KEY 2 = []
   \<and> readHistory False (backend_with (EmptyText :: int item)) DEFAULT_STORAGE_KEY 2 = []
   \<and> readHistory False (backend_with (BadText :: int item)) DEFAULT_STORAGE_KEY 2 = []
   \<and> readHistory False (backend_with (JsonText (NotArray :: int parsed))) DEFAULT_STORAGE_KEY 2 = []
   \<and> readHistory False (backend_with (JsonText (Array [1, 2, 3 :: int]))) DEFAULT_STORAGE_KEY 2
       = [1, 2]"
proof -
  have k: "backend_with v DEFAULT_STORAGE_KEY = Some v" for v :: "int item"
    by (simp add: backend_with_def)
  have e: "readHistory_try False (backend_with (BadText :: int item)) DEFAULT_STORAGE_KEY 2
             = Inl SyntaxError"
    by (simp add: readHistory_try_def getItem_def JSON_parse_def k)
  show ?thesis
    using readHistory_never_throws [where t = True and cap = 2 and k = DEFAULT_STORAGE_KEY
        and ls = "backend_with (JsonText (Array [1, 2, 3 :: int]))" and xs = "[1, 2, 3]"]
      readHistory_never_throws [where t = False and cap = 2 and k = DEFAULT_STORAGE_KEY
        and ls = "Map.empty :: int storage"]
      readHistory_never_throws [where t = False and cap = 2 and k = DEFAULT_STORAGE_KEY
        and ls = "backend_with (EmptyText :: int item)"]
      readHistory_never_throws [where t = False and cap = 2 and k = DEFAULT_STORAGE_KEY
        and ls = "backend_with (BadText :: int item)"]
      readHistory_never_throws [where t = False and cap = 2 and k = DEFAULT_STORAGE_KEY
        and ls = "backend_with (JsonText (NotArray :: int parsed))"]
      readHistory_never_throws [where t = False and cap = 2 and k = DEFAULT_STORAGE_KEY
        and ls = "backend_with (JsonText (Array [1, 2, 3 :: int]))" and xs = "[1, 2, 3]"]
    by (simp add: k e)
qed

text \<open>
  Claim C9 is not what the code does. The only shape test of \<open>readHistory\<close> is
  \<open>Array.isArray(parsed)\<close>: a text that does not parse and a parsed value that is not a
  sequence are recovered as the empty history, but a stored sequence whose elements are
  not records with the fields of a history entry is returned as it is. Its elements then
  reach \<open>entry.key\<close> in the capture, outside any \<open>try\<close>: with the stored sequence
  \<open>[null]\<close> the load gives one element and the capture throws a \<open>TypeError\<close>, where an
  empty history was to be the result.
\<close>

theorem unvalidated_elements_reach_capture:
  "\<not> is_history_entry JNull
   \<and> readHistory False (backend_with (JsonText (Array [JNull]))) DEFAULT_STORAGE_KEY 50 = [JNull]
   \<and> filter_other_keys ''/docs''
         (readHistory False (backend_with (JsonText (Array [JNull]))) DEFAULT_STORAGE_KEY 50)
       = Inl TypeError
   \<and> \<not> list_ex is_history_entry [JNumber 1, JString ''x'', JNull]
   \<and> readHistory False (backend_with (JsonText (Array [JNumber 1, JString ''x'', JNull])))
         DEFAULT_STORAGE_KEY 50 = [JNumber 1, JString ''x'', JNull]
   \<and> readHistory False (backend_with (JsonText (NotArray :: json parsed))) DEFAULT_STORAGE_KEY 50 = []
   \<and> readHistory False (backend_with (BadText :: json item)) DEFAULT_STORAGE_KEY 50 = []"
  by (simp add: is_history_entry_def readHistory_def readHistory_try_def getItem_def
      JSON_parse_def backend_with_def entry_key_def)

section \<open>Label resolver: the three rules\<close>

text \<open>
  Claim C3. A segment is detected as a dynamic-identifier segment (the test of
  \<open>UUID_PATTERN\<close> on it succeeds) if and only if it has the dynamic-identifier shape of
  the specification.
\<close>

theorem uuid_pattern_shape: "regex_test UUID_PATTERN s \<longleftrightarrow> dynamic_identifier_shape s"
proof
  assume "regex_test UUID_PATTERN s"
  then obtain g1 g2 v g3 w g4 g5 where
    s: "s = g1 @ CHR ''-'' # g2 @ CHR ''-'' # v # g3 @ CHR ''-'' # w # g4 @ CHR ''-'' # g5"
    and len: "length g1 = 8" "length g2 = 4" "length g3 = 3" "length g4 = 3" "length g5 = 12"
    and hex: "list_all hex_digit g1" "list_all hex_digit g2" "list_all hex_digit g3"
      "list_all hex_digit g4" "list_all hex_digit g5"
    and v: "v \<in> set ''12345''" and w: "w \<in> set ''89abAB''"
    unfolding uuid_structure by blast
  from v have hv: "hex_digit v" by (auto simp: hex_digit_def)
  from w have hw: "hex_digit w" by (auto simp: hex_digit_def)
  have h3: "list_all hex_digit (v # g3)" and h4: "list_all hex_digit (w # g4)"
    using hv hw hex by simp_all
  have "split CHR ''-'' s = [g1, g2, v # g3, w # g4, g5]"
    using split_append [OF hex_digit_not_dash [OF hex(1)]]
      split_append [OF hex_digit_not_dash [OF hex(2)]]
      split_append [OF hex_digit_not_dash [OF h3]]
      split_append [OF hex_digit_not_dash [OF h4]]
      split_no_sep [OF hex_digit_not_dash [OF hex(5)]]
    unfolding s by simp
  moreover have "length s = 36"
    unfolding s using len by simp
  ultimately show "dynamic_identifier_shape s"
    unfolding dynamic_identifier_shape_def using len hex h3 h4 v w by simp
next
  assume a: "dynamic_identifier_shape s"
  then obtain g1 g2 g3 g4 g5 where sp: "split CHR ''-'' s = [g1, g2, g3, g4, g5]"
    unfolding dynamic_identifier_shape_def
    by (auto split: list.splits)
  from a sp have len: "length g1 = 8" "length g2 = 4" "length g3 = 4" "length g4 = 4" "length g5 = 12"
    and hex: "list_all hex_digit g1" "list_all hex_digit g2" "list_all hex_digit g3"
      "list_all hex_digit g4" "list_all hex_digit g5"
    and v: "hd g3 \<in> set ''12345''" and w: "hd g4 \<in> set ''89abAB''"
    unfolding dynamic_identifier_shape_def by simp_all
  obtain v t3 where g3: "g3 = v # t3" using len(3) by (cases g3) auto
  obtain w t4 where g4: "g4 = w # t4" using len(4) by (cases g4) auto
  have "s = join ''-'' (split CHR ''-'' s)"
    by (simp add: join_split)
  then have "s = g1 @ CHR ''-'' # g2 @ CHR ''-'' # v # t3 @ CHR ''-'' # w # t4 @ CHR ''-'' # g5"
    unfolding sp g3 g4 by simp
  moreover have "length t3 = 3" "length t4 = 3" "list_all hex_digit t3" "list_all hex_digit t4"
    "v \<in> set ''12345''" "w \<in> set ''89abAB''"
    using len hex v w unfolding g3 g4 by simp_all
  ultimately show "regex_test UUID_PATTERN s"
    unfolding uuid_structure using len hex by blast
qed

theorem uuid_pattern_shape_witness:
  "dynamic_identifier_shape uuid_example
   \<and> regex_test UUID_PATTERN uuid_example
   \<and> regex_test UUID_PATTERN ''123E4567-E89B-12D3-A456-426614174000''
   \<and> \<not> dynamic_identifier_shape ''123e4567-e89b-62d3-a456-426614174000''
   \<and> \<not> regex_test UUID_PATTERN ''123e4567-e89b-62d3-a456-426614174000''
   \<and> \<not> regex_test UUID_PATTERN ''123e4567-e89b-12d3-c456-426614174000''"
proof -
  have a: "dynamic_identifier_shape uuid_example"
    by code_simp
  have b: "dynamic_identifier_shape ''123E4567-E89B-12D3-A456-426614174000''"
    by code_simp
  have c: "\<not> dynamic_identifier_shape ''123e4567-e89b-62d3-a456-426614174000''"
    by code_simp
  have d: "\<not> dynamic_identifier_shape ''123e4567-e89b-12d3-c456-426614174000''"
    by code_simp
  show ?thesis
    using a b c d
      uuid_pattern_shape [of uuid_example]
      uuid_pattern_shape [of "''123E4567-E89B-12D3-A456-426614174000''"]
      uuid_pattern_shape [of "''123e4567-e89b-62d3-a456-426614174000''"]
      uuid_pattern_shape [of "''123e4567-e89b-12d3-c456-426614174000''"]
    by blast
qed

text \<open>
  Claim C2. The default label resolver is called on the contexts the two effects build:
  the heading is what \<open>getCurrentPageHeading\<close> returns and the segments are those of the
  normalized path. For every such context with at least one segment and a heading that is
  not \<open>null\<close>: if some segment matches the dynamic-identifier shape, the label is the
  title-cased second-to-last segment, \<open> / \<close> and the heading when a second-to-last
  segment exists, and the heading alone otherwise; else, if the query contains \<open>_id=\<close>,
  the label is the title-cased last segment, \<open> / \<close> and the heading. Scenarios B and C
  are instances.
\<close>

theorem heading_label_rules:
  assumes "c = label_context p l (getCurrentPageHeading t)"
    and "segments c \<noteq> []" and "heading c = Some h"
  shows
    "(list_ex (regex_test UUID_PATTERN) (segments c) \<longrightarrow>
        defaultLabelResolver c =
          (if 2 \<le> length (segments c)
           then toTitleCase (segments c ! (length (segments c) - 2)) @ '' / '' @ h
           else h))
     \<and> (\<not> list_ex (regex_test UUID_PATTERN) (segments c) \<and> includes_str (query c) ''_id='' \<longrightarrow>
        defaultLabelResolver c = toTitleCase (last (segments c)) @ '' / '' @ h)"
proof -
  have hd: "heading c = getCurrentPageHeading t"
    and sg: "segments c = path_segments (normalizePath (loc_pathname l) (basePath p))"
    unfolding assms(1) by (simp_all add: label_context_def Let_def)
  from hd assms(3) heading_not_empty [of t] have h: "h \<noteq> []"
    by auto
  have ne: "[] \<notin> set (segments c)"
    unfolding sg by (rule path_segments_not_empty)
  from assms(2) have "last (segments c) \<in> set (segments c)"
    by simp
  with ne have la: "last (segments c) \<noteq> []"
    by metis
  have pa: "segments c ! (length (segments c) - 2) \<noteq> []" if "2 \<le> length (segments c)"
  proof -
    from that have "segments c ! (length (segments c) - 2) \<in> set (segments c)"
      by (intro nth_mem) simp
    with ne show ?thesis by metis
  qed
  show ?thesis
    using heading_label_nonempty [OF assms(2,3) h] la pa by simp
qed

theorem heading_label_rules_witness:
  "scenario_B = label_context plain_props user_location (getCurrentPageHeading (Some ''Jane Doe''))
   \<and> segments scenario_B \<noteq> [] \<and> heading scenario_B = Some ''Jane Doe''
   \<and> list_ex (regex_test UUID_PATTERN) (segments scenario_B)
   \<and> defaultLabelResolver scenario_B = ''Users / Jane Doe''
   \<and> scenario_C = label_context plain_props reports_location (getCurrentPageHeading (Some ''Q3 Summary''))
   \<and> segments scenario_C \<noteq> [] \<and> heading scenario_C = Some ''Q3 Summary''
   \<and> \<not> list_ex (regex_test UUID_PATTERN) (segments scenario_C)
   \<and> includes_str (query scenario_C) ''_id=''
   \<and> defaultLabelResolver scenario_C = ''Reports / Q3 Summary''"
proof -
  have eb: "scenario_B
      = label_context plain_props user_location (getCurrentPageHeading (Some ''Jane Doe''))"
    by code_simp
  have b: "segments scenario_B \<noteq> []" "heading scenario_B = Some ''Jane Doe''"
    by (simp_all add: scenario_B_def)
  have bd: "list_ex (regex_test UUID_PATTERN) (segments scenario_B)"
    by code_simp
  have be: "(if 2 \<le> length (segments scenario_B)
             then toTitleCase (segments scenario_B ! (length (segments scenario_B) - 2))
                    @ '' / '' @ ''Jane Doe''
             else ''Jane Doe'') = ''Users / Jane Doe''"
    by code_simp
  have ec: "scenario_C
      = label_context plain_props reports_location (getCurrentPageHeading (Some ''Q3 Summary''))"
    by code_simp
  have c: "segments scenario_C \<noteq> []" "heading scenario_C = Some ''Q3 Summary''"
    by (simp_all add: scenario_C_def)
  have cd: "\<not> list_ex (regex_test UUID_PATTERN) (segments scenario_C)"
    "includes_str (query scenario_C) ''_id=''"
    by code_simp+
  have ce: "toTitleCase (last (segments scenario_C)) @ '' / '' @ ''Q3 Summary''
      = ''Reports / Q3 Summary''"
    by code_simp
  have "defaultLabelResolver scenario_B = ''Users / Jane Doe''"
    using heading_label_rules [OF eb b] bd be by simp
  moreover have "defaultLabelResolver scenario_C = ''Reports / Q3 Summary''"
    using heading_label_rules [OF ec c] cd ce by simp
  ultimately show ?thesis
    using eb ec b c bd cd by simp
qed

text \<open>
  Claim C4. For every label context with at least one segment that the heading rules do
  not handle (no heading, or no dynamic-identifier segment and no \<open>_id=\<close> in the query),
  the label is the single segment title-cased, or the last two segments title-cased and
  joined with \<open> / \<close>. Title-casing keeps the length, puts a space for every \<open>-\<close> and
  \<open>_\<close>, and puts the upper-case form for every letter or digit that starts the string
  or follows a character that is not a letter or digit; every other character stays.
  Scenario A is an instance.
\<close>

theorem path_label_fallback:
  assumes "segments c \<noteq> []"
    and "heading c = None
         \<or> (\<not> list_ex (regex_test UUID_PATTERN) (segments c) \<and> \<not> includes_str (query c) ''_id='')"
  shows
    "(length (segments c) = 1 \<longrightarrow> defaultLabelResolver c = toTitleCase (segments c ! 0))
     \<and> (2 \<le> length (segments c) \<longrightarrow>
          defaultLabelResolver c =
            toTitleCase (segments c ! (length (segments c) - 2)) @ '' / ''
              @ toTitleCase (segments c ! (length (segments c) - 1)))
     \<and> length (toTitleCase s) = length s
     \<and> (\<forall>i < length s.
          toTitleCase s ! i =
            (if s ! i = CHR ''-'' \<or> s ! i = CHR ''_'' then CHR '' ''
             else if is_letter_or_digit (s ! i) \<and> (i = 0 \<or> \<not> is_letter_or_digit (s ! (i - 1)))
             then toUpperCase (s ! i) else s ! i))"
proof -
  have d: "defaultLabelResolver c = path_label (segments c)"
    using assms by (auto simp: defaultLabelResolver_def split: option.splits)
  have one: "defaultLabelResolver c = toTitleCase (segments c ! 0)" if "length (segments c) = 1"
  proof -
    from that obtain a where "segments c = [a]"
      by (cases "segments c") auto
    then show ?thesis using d by (simp add: path_label_def slice_last2_def)
  qed
  have two: "defaultLabelResolver c =
            toTitleCase (segments c ! (length (segments c) - 2)) @ '' / ''
              @ toTitleCase (segments c ! (length (segments c) - 1))"
    if "2 \<le> length (segments c)"
    using d drop_last2 [OF that] by (simp add: path_label_def slice_last2_def)
  have len: "length (toTitleCase s) = length s"
    by (simp add: toTitleCase_def length_replace_word_starts replace_dash_underscore_def)
  show ?thesis
    using one two len toTitleCase_nth by blast
qed

theorem path_label_fallback_witness:
  "segments scenario_A \<noteq> [] \<and> heading scenario_A = None
   \<and> 2 \<le> length (segments scenario_A)
   \<and> defaultLabelResolver scenario_A = ''Docs / Intro''
   \<and> toTitleCase ''api_keys-v2'' ! 4 = CHR ''K''
   \<and> toTitleCase ''api_keys-v2'' ! 3 = CHR '' ''"
proof -
  have a: "segments scenario_A \<noteq> []"
    "heading scenario_A = None
     \<or> (\<not> list_ex (regex_test UUID_PATTERN) (segments scenario_A)
        \<and> \<not> includes_str (query scenario_A) ''_id='')"
    by (simp_all add: scenario_A_def)
  have l: "2 \<le> length (segments scenario_A)" "heading scenario_A = None"
    by (simp_all add: scenario_A_def)
  have e: "toTitleCase (segments scenario_A ! (length (segments scenario_A) - 2)) @ '' / ''
             @ toTitleCase (segments scenario_A ! (length (segments scenario_A) - 1))
           = ''Docs / Intro''"
    by code_simp
  note t = path_label_fallback [OF a, of "''api_keys-v2''"]
  from t l e have "defaultLabelResolver scenario_A = ''Docs / Intro''"
    by simp
  moreover
  from t have n: "\<forall>i < length ''api_keys-v2''.
          toTitleCase ''api_keys-v2'' ! i =
            (if ''api_keys-v2'' ! i = CHR ''-'' \<or> ''api_keys-v2'' ! i = CHR ''_'' then CHR '' ''
             else if is_letter_or_digit (''api_keys-v2'' ! i)
                     \<and> (i = 0 \<or> \<not> is_letter_or_digit (''api_keys-v2'' ! (i - 1)))
             then toUpperCase (''api_keys-v2'' ! i) else ''api_keys-v2'' ! i)"
    by blast
  have "toTitleCase ''api_keys-v2'' ! 4 = CHR ''K''"
    using n [rule_format, of 4]
    by (simp add: is_letter_or_digit_def toUpperCase_def lower_letters_def upper_letters_def
        digits_def)
  moreover have "toTitleCase ''api_keys-v2'' ! 3 = CHR '' ''"
    using n [rule_format, of 3] by simp
  ultimately show ?thesis
    using a l by simp
qed

section \<open>History store and visit controller\<close>

text \<open>
  Claim C1. Start from the empty store and run any sequence of navigations, timer
  callbacks, removals, clears and unmounts, with reads and writes of the backend failing
  or not. After every event the list the component shows and the list the backend holds
  each have at most \<open>maxHistory\<close> entries and no two entries with the same key. Both are
  ordered most-recent-visit-first: giving every navigation its position in the run as its
  timestamp changes nothing in the two lists but the timestamps, and makes each list
  ordered by timestamp, latest first; when the clock itself never runs backwards between
  navigations, the lists are ordered by their recorded timestamps. When no write has
  failed and the component has stayed mounted, the two lists are the same. A navigation to
  a key that is present in the list the capture loads puts the new entry for that key at
  position 0, keeps the other loaded entries in their order, leaves the number of entries
  as it was and the key in the list exactly once.
\<close>

theorem history_invariants:
  "let s = run p initial evs;
       r = run p initial (restamp 0 evs)
   in length (entries s) \<le> maxHistory p \<and> length (stored p s) \<le> maxHistory p
     \<and> distinct (map key (entries s)) \<and> distinct (map key (stored p s))
     \<and> map untimed (entries s) = map untimed (entries r) \<and> newest_first (entries r)
     \<and> map untimed (stored p s) = map untimed (stored p r) \<and> newest_first (stored p r)
     \<and> (sorted (visit_times evs) \<longrightarrow> newest_first (entries s) \<and> newest_first (stored p s))
     \<and> (list_all write_ok evs \<longrightarrow> entries s = stored p s)
     \<and> (\<forall>l e.
          let loaded = readHistory (getItem_throws e) (localStorage s) (storageKey p) (maxHistory p);
              k = currentUrl (loc_pathname l) (basePath p) (loc_query l);
              s' = step p s (Navigate l e)
          in \<not> isIgnored (loc_pathname l) (basePath p) (ignorePaths p) \<and> k \<in> key ` set loaded \<longrightarrow>
               (\<exists>x. entries s' = x # filter (\<lambda>entry. key entry \<noteq> k) loaded
                     \<and> key x = k \<and> visitedAt x = now e)
               \<and> length (entries s') = length loaded
               \<and> length (filter (\<lambda>entry. key entry = k) (entries s')) = 1
               \<and> (\<not> setItem_throws e \<longrightarrow> stored p s' = entries s')
               \<and> (list_all write_ok evs \<and> \<not> getItem_throws e \<longrightarrow> loaded = entries s))"
proof -
  define s where "s = run p initial evs"
  note inv = run_bounded_distinct [of p evs, folded s_def]
  have sync: "entries s = stored p s" if "list_all write_ok evs"
    using run_in_sync [OF that, of p] by (simp add: s_def)
  have order: "newest_first (entries s) \<and> newest_first (stored p s)" if "sorted (visit_times evs)"
    using run_newest_first [OF that, of p] by (simp add: s_def)
  have revisit:
    "(\<exists>x. entries (step p s (Navigate l e))
            = x # filter (\<lambda>entry. key entry \<noteq> currentUrl (loc_pathname l) (basePath p) (loc_query l))
                    (readHistory (getItem_throws e) (localStorage s) (storageKey p) (maxHistory p))
          \<and> key x = currentUrl (loc_pathname l) (basePath p) (loc_query l) \<and> visitedAt x = now e)
     \<and> length (entries (step p s (Navigate l e)))
         = length (readHistory (getItem_throws e) (localStorage s) (storageKey p) (maxHistory p))
     \<and> length (filter (\<lambda>entry. key entry = currentUrl (loc_pathname l) (basePath p) (loc_query l))
                  (entries (step p s (Navigate l e)))) = 1
     \<and> (\<not> setItem_throws e \<longrightarrow> stored p (step p s (Navigate l e)) = entries (step p s (Navigate l e)))
     \<and> (list_all write_ok evs \<and> \<not> getItem_throws e \<longrightarrow>
          readHistory (getItem_throws e) (localStorage s) (storageKey p) (maxHistory p) = entries s)"
    if ni: "\<not> isIgnored (loc_pathname l) (basePath p) (ignorePaths p)"
      and pr: "currentUrl (loc_pathname l) (basePath p) (loc_query l)
                 \<in> key ` set (readHistory (getItem_throws e) (localStorage s) (storageKey p) (maxHistory p))"
    for l e
  proof -
    define loaded where
      "loaded = readHistory (getItem_throws e) (localStorage s) (storageKey p) (maxHistory p)"
    define k where "k = currentUrl (loc_pathname l) (basePath p) (loc_query l)"
    define x where "x = \<lparr>key = k, SidebarHistoryEntry.url = k,
        label = resolveLabel (labelResolver p) (label_context p l (getCurrentPageHeading (h1_text e))),
        visitedAt = now e\<rparr>"
    have kx: "key x = k" "visitedAt x = now e" by (simp_all add: x_def)
    have dl: "distinct (map key loaded)" and ll: "length loaded \<le> maxHistory p"
      unfolding loaded_def using loaded_props(1,2) inv by blast+
    from pr have pk: "key x \<in> key ` set loaded"
      unfolding loaded_def k_def kx(1) [unfolded k_def] by simp
    note up = upsert_present [OF dl pk ll]
    from capture_effect(2) [OF ni, of e "clearTimeout s"]
    have ce: "entries (step p s (Navigate l e)) = upsert (maxHistory p) x loaded"
      "stored p (step p s (Navigate l e))
         = (if setItem_throws e then stored p s else upsert (maxHistory p) x loaded)"
      unfolding loaded_def x_def k_def by simp_all
    have f1: "filter (\<lambda>entry. key entry = k) (x # filter (\<lambda>entry. key entry \<noteq> k) loaded) = [x]"
      using kx(1) by (simp add: filter_empty_conv)
    have sy: "loaded = entries s" if "list_all write_ok evs" "\<not> getItem_throws e"
    proof -
      have "loaded = take (maxHistory p) (stored p s)"
        unfolding loaded_def readHistory_stored using that(2) by simp
      then show ?thesis using sync [OF that(1)] inv by simp
    qed
    show ?thesis
      unfolding loaded_def [symmetric] k_def [symmetric] ce up(1)
      using kx f1 up(2) [unfolded up(1)] sy by (simp add: kx(1))
  qed
  note stamp = run_restamp [of p evs, folded s_def]
  show ?thesis
    unfolding Let_def s_def [symmetric]
    using inv sync order revisit stamp by blast
qed

theorem history_invariants_witness:
  "sorted (visit_times two_visits) \<and> list_all write_ok two_visits
   \<and> length (entries (run plain_props initial two_visits)) \<le> maxHistory plain_props
   \<and> distinct (map key (entries (run plain_props initial two_visits)))
   \<and> newest_first (entries (run plain_props initial two_visits))
   \<and> newest_first (stored plain_props (run plain_props initial two_visits))
   \<and> entries (run plain_props initial two_visits) = stored plain_props (run plain_props initial two_visits)
   \<and> \<not> isIgnored (loc_pathname docs_location) (basePath plain_props) (ignorePaths plain_props)
   \<and> currentUrl (loc_pathname docs_location) (basePath plain_props) (loc_query docs_location)
       \<in> key ` set (readHistory (getItem_throws (env_at 3 None))
                        (localStorage (run plain_props initial two_visits))
                        (storageKey plain_props) (maxHistory plain_props))
   \<and> length (entries (step plain_props (run plain_props initial two_visits)
                         (Navigate docs_location (env_at 3 None))))
       = length (entries (run plain_props initial two_visits))
   \<and> key (hd (entries (step plain_props (run plain_props initial two_visits)
                          (Navigate docs_location (env_at 3 None))))) = ''/docs''
   \<and> length (filter (\<lambda>entry. key entry = ''/docs'')
        (entries (step plain_props (run plain_props initial two_visits)
                    (Navigate docs_location (env_at 3 None))))) = 1
   \<and> map key (entries (run plain_props initial two_visits))
       = [''/users/123e4567-e89b-12d3-a456-426614174000'', ''/docs'']
   \<and> map key (entries (step plain_props (run plain_props initial two_visits)
                         (Navigate docs_location (env_at 3 None))))
       = [''/docs'', ''/users/123e4567-e89b-12d3-a456-426614174000'']"
proof -
  let ?s = "run plain_props initial two_visits"
  let ?e = "env_at 3 None"
  let ?loaded = "readHistory (getItem_throws ?e) (localStorage ?s) (storageKey plain_props)
      (maxHistory plain_props)"
  let ?k = "currentUrl (loc_pathname docs_location) (basePath plain_props) (loc_query docs_location)"
  have so: "sorted (visit_times two_visits)" and wo: "list_all write_ok two_visits"
    by code_simp+
  have ni: "\<not> isIgnored (loc_pathname docs_location) (basePath plain_props) (ignorePaths plain_props)"
    by code_simp
  have pr: "?k \<in> key ` set ?loaded"
    by code_simp
  have k: "?k = ''/docs''" and g: "\<not> getItem_throws ?e"
    by code_simp+
  have m1: "map key (entries ?s) = [''/users/123e4567-e89b-12d3-a456-426614174000'', ''/docs'']"
    by code_simp
  have m2: "map key (entries (step plain_props ?s (Navigate docs_location ?e)))
       = [''/docs'', ''/users/123e4567-e89b-12d3-a456-426614174000'']"
    by code_simp
  note t = history_invariants [of plain_props two_visits, unfolded Let_def]
  from t so wo have inv: "length (entries ?s) \<le> maxHistory plain_props"
    "distinct (map key (entries ?s))" "newest_first (entries ?s)"
    "newest_first (stored plain_props ?s)" "entries ?s = stored plain_props ?s"
    by blast+
  from t have "\<not> isIgnored (loc_pathname docs_location) (basePath plain_props) (ignorePaths plain_props)
        \<and> ?k \<in> key ` set ?loaded \<longrightarrow>
      (\<exists>x. entries (step plain_props ?s (Navigate docs_location ?e))
              = x # filter (\<lambda>entry. key entry \<noteq> ?k) ?loaded
            \<and> key x = ?k \<and> visitedAt x = now ?e)
      \<and> length (entries (step plain_props ?s (Navigate docs_location ?e))) = length ?loaded
      \<and> length (filter (\<lambda>entry. key entry = ?k)
                   (entries (step plain_props ?s (Navigate docs_location ?e)))) = 1
      \<and> (\<not> setItem_throws ?e \<longrightarrow>
            stored plain_props (step plain_props ?s (Navigate docs_location ?e))
              = entries (step plain_props ?s (Navigate docs_location ?e)))
      \<and> (list_all write_ok two_visits \<and> \<not> getItem_throws ?e \<longrightarrow> ?loaded = entries ?s)"
    by blast
  with ni pr wo g obtain x where
    r: "entries (step plain_props ?s (Navigate docs_location ?e))
          = x # filter (\<lambda>entry. key entry \<noteq> ?k) ?loaded" "key x = ?k"
      "length (entries (step plain_props ?s (Navigate docs_location ?e))) = length ?loaded"
      "length (filter (\<lambda>entry. key entry = ?k)
                   (entries (step plain_props ?s (Navigate docs_location ?e)))) = 1"
      "?loaded = entries ?s"
    by blast
  from r(1,2) k have hd: "key (hd (entries (step plain_props ?s (Navigate docs_location ?e)))) = ''/docs''"
    by simp
  from r(3,5) have len: "length (entries (step plain_props ?s (Navigate docs_location ?e)))
      = length (entries ?s)"
    by simp
  from r(4) k have one: "length (filter (\<lambda>entry. key entry = ''/docs'')
        (entries (step plain_props ?s (Navigate docs_location ?e)))) = 1"
    by simp
  show ?thesis
    using so wo inv ni pr len hd one m1 m2 by blast
qed

text \<open>
  Claim C6. Time is the order of the events: a timer that is set fires at any later point
  unless it is cleared first. A navigation clears the pending timer before anything else,
  so whatever refinement was pending has no effect on the outcome, and afterwards the only
  pending refinement is the one of the new navigation (none when the new location is
  ignored); the timer fires at most once. The callback of a refinement changes nothing
  when no loaded entry has the key computed for its navigation, and in every case each
  loaded entry with another key is at its position, unchanged, in the resulting list.
\<close>

theorem stale_refinement_superseded:
  "timer (step p s (Navigate l e))
     = (if isIgnored (loc_pathname l) (basePath p) (ignorePaths p) then None else Some l)
   \<and> step p (s\<lparr>timer := Some l0\<rparr>) (Navigate l e) = step p (s\<lparr>timer := None\<rparr>) (Navigate l e)
   \<and> step p (step p s (Navigate l e)) (TimerFires e')
     = (if isIgnored (loc_pathname l) (basePath p) (ignorePaths p) then step p s (Navigate l e)
        else refine p l e' (clearTimeout (step p s (Navigate l e))))
   \<and> timer (step p s (TimerFires e')) = None
   \<and> timer (step p s Unmount) = None
   \<and> (timer s = None \<longrightarrow> step p s (TimerFires e') = s)
   \<and> (let loaded = readHistory (getItem_throws e') (localStorage s) (storageKey p) (maxHistory p);
           k = currentUrl (loc_pathname l) (basePath p) (loc_query l);
           s' = refine p l e' s
       in (k \<notin> key ` set loaded \<longrightarrow> s' = s)
          \<and> (s' = s
              \<or> (length (entries s') = length loaded
                  \<and> (\<forall>j < length loaded. key (loaded ! j) \<noteq> k \<longrightarrow> entries s' ! j = loaded ! j)
                  \<and> (localStorage s' = localStorage s \<or> stored p s' = entries s'))))"
proof -
  have t1: "timer (step p s (Navigate l e))
     = (if isIgnored (loc_pathname l) (basePath p) (ignorePaths p) then None else Some l)" for s
    by (simp add: schedule_def clearTimeout_def)
  have t2: "step p (s\<lparr>timer := Some l0\<rparr>) (Navigate l e) = step p (s\<lparr>timer := None\<rparr>) (Navigate l e)"
    by (simp add: clearTimeout_def)
  have t3: "step p (step p s (Navigate l e)) (TimerFires e')
     = (if isIgnored (loc_pathname l) (basePath p) (ignorePaths p) then step p s (Navigate l e)
        else refine p l e' (clearTimeout (step p s (Navigate l e))))"
    using t1 [of s] by (simp del: step.simps(1))
  have rt: "timer (refine p l e s) = timer s" for l e s
    using refine_frame_lemma [of p l e s] by auto
  have t4: "timer (step p s (TimerFires e')) = None"
    by (cases "timer s") (simp_all add: rt clearTimeout_def)
  have t5: "timer (step p s Unmount) = None"
    by (simp add: clearTimeout_def)
  have t6: "timer s = None \<longrightarrow> step p s (TimerFires e') = s"
    by simp
  have n: "refine p l e' s = s"
    if "currentUrl (loc_pathname l) (basePath p) (loc_query l)
          \<notin> key ` set (readHistory (getItem_throws e') (localStorage s) (storageKey p) (maxHistory p))"
  proof -
    from that have "\<forall>x \<in> set (readHistory (getItem_throws e') (localStorage s) (storageKey p)
          (maxHistory p)). key x \<noteq> currentUrl (loc_pathname l) (basePath p) (loc_query l)"
      by (metis image_eqI)
    then have "findIndex (\<lambda>entry. key entry = currentUrl (loc_pathname l) (basePath p) (loc_query l))
        (readHistory (getItem_throws e') (localStorage s) (storageKey p) (maxHistory p)) = None"
      unfolding findIndex_None .
    then show ?thesis by (rule refine_noop(2))
  qed
  show ?thesis
    unfolding Let_def
    using t1 [of s] t2 t3 t4 t5 t6 n refine_frame_lemma [of p l e' s]
    by blast
qed

theorem stale_refinement_superseded_witness:
  "timer (step plain_props visited_user (Navigate docs_location (env_at 2 None))) = Some docs_location
   \<and> isIgnored (loc_pathname admin_location) (basePath example_props) (ignorePaths example_props)
   \<and> timer (step example_props visited_user (Navigate admin_location (env_at 2 None))) = None
   \<and> step plain_props (visited_user\<lparr>timer := Some user_location\<rparr>)
         (Navigate docs_location (env_at 2 None))
       = step plain_props (visited_user\<lparr>timer := None\<rparr>) (Navigate docs_location (env_at 2 None))
   \<and> step plain_props visited_user_docs (TimerFires (env_at 5 (Some ''Jane Doe'')))
       = refine plain_props docs_location (env_at 5 (Some ''Jane Doe'')) (clearTimeout visited_user_docs)
   \<and> currentUrl (loc_pathname admin_location) (basePath plain_props) (loc_query admin_location)
       \<notin> key ` set (readHistory (getItem_throws (env_at 5 (Some ''Jane Doe'')))
                        (localStorage visited_user_docs) (storageKey plain_props)
                        (maxHistory plain_props))
   \<and> refine plain_props admin_location (env_at 5 (Some ''Jane Doe'')) visited_user_docs
       = visited_user_docs
   \<and> entries (refine plain_props user_location (env_at 5 (Some ''Jane Doe'')) visited_user_docs) ! 0
       = entries visited_user_docs ! 0"
proof -
  let ?e = "env_at 5 (Some ''Jane Doe'')"
  let ?loaded = "readHistory (getItem_throws ?e) (localStorage visited_user_docs)
           (storageKey plain_props) (maxHistory plain_props)"
  have ni: "\<not> isIgnored (loc_pathname docs_location) (basePath plain_props) (ignorePaths plain_props)"
    by code_simp
  have ig: "isIgnored (loc_pathname admin_location) (basePath example_props) (ignorePaths example_props)"
    by code_simp
  have nk: "currentUrl (loc_pathname admin_location) (basePath plain_props) (loc_query admin_location)
       \<notin> key ` set ?loaded"
    by code_simp
  have ld: "?loaded = entries visited_user_docs" "0 < length ?loaded"
    "key (?loaded ! 0)
       \<noteq> currentUrl (loc_pathname user_location) (basePath plain_props) (loc_query user_location)"
    by code_simp+
  note a = stale_refinement_superseded [where p = plain_props and s = visited_user
      and l = docs_location and e = "env_at 2 None" and ?l0.0 = user_location and e' = ?e,
      unfolded Let_def]
  note b = stale_refinement_superseded [where p = example_props and s = visited_user
      and l = admin_location and e = "env_at 2 None" and ?l0.0 = user_location and e' = ?e,
      unfolded Let_def]
  note c = stale_refinement_superseded [where p = plain_props and s = visited_user_docs
      and l = admin_location and e = "env_at 2 None" and ?l0.0 = user_location and e' = ?e,
      unfolded Let_def]
  note d = stale_refinement_superseded [where p = plain_props and s = visited_user_docs
      and l = user_location and e = "env_at 2 None" and ?l0.0 = user_location and e' = ?e,
      unfolded Let_def]
  from a ni have 1: "timer (step plain_props visited_user (Navigate docs_location (env_at 2 None)))
      = Some docs_location"
    by simp
  from b ig have 2: "timer (step example_props visited_user (Navigate admin_location (env_at 2 None)))
      = None"
    by simp
  from a have 3: "step plain_props (visited_user\<lparr>timer := Some user_location\<rparr>)
         (Navigate docs_location (env_at 2 None))
       = step plain_props (visited_user\<lparr>timer := None\<rparr>) (Navigate docs_location (env_at 2 None))"
    by blast
  from a ni have 4: "step plain_props visited_user_docs (TimerFires ?e)
       = refine plain_props docs_location ?e (clearTimeout visited_user_docs)"
    unfolding visited_user_docs_def [symmetric] by simp
  from c nk have 5: "refine plain_props admin_location ?e visited_user_docs = visited_user_docs"
    by blast
  from d ld have 6: "entries (refine plain_props user_location ?e visited_user_docs) ! 0
       = entries visited_user_docs ! 0"
    by auto
  show ?thesis
    using 1 2 3 4 5 6 ig nk by blast
qed

text \<open>
  Claim C7. When the callback of the deferred refinement runs: if no heading is available,
  or no entry of the reloaded store has the key of its navigation, or the recomputed label
  is the label stored in the entry with that key, the state is left as it is (backend and
  component alike). Otherwise the resulting list is the reloaded list with the label of
  that one entry replaced: the entry keeps its position, key, url and timestamp, and every
  other entry is unchanged. The component shows this list, and the backend holds it when
  the write succeeds and is untouched when the write fails; no other key of the backend
  changes.
\<close>

theorem refinement_frame:
  "let heading' = getCurrentPageHeading (h1_text e);
       loaded = readHistory (getItem_throws e) (localStorage s) (storageKey p) (maxHistory p);
       k = currentUrl (loc_pathname l) (basePath p) (loc_query l);
       updated = resolveLabel (labelResolver p) (label_context p l heading');
       s' = refine p l e s
   in (heading' = None \<longrightarrow> s' = s)
      \<and> (k \<notin> key ` set loaded \<longrightarrow> s' = s)
      \<and> (\<forall>x. find (\<lambda>entry. key entry = k) loaded = Some x \<and> label x = updated \<longrightarrow> s' = s)
      \<and> (\<forall>x. heading' \<noteq> None \<and> find (\<lambda>entry. key entry = k) loaded = Some x
              \<and> label x \<noteq> updated \<longrightarrow>
            (\<exists>i < length loaded.
                loaded ! i = x \<and> (\<forall>j < i. key (loaded ! j) \<noteq> k)
                \<and> entries s' = loaded[i := x\<lparr>label := updated\<rparr>]
                \<and> length (entries s') = length loaded
                \<and> (\<forall>j < length loaded. j \<noteq> i \<longrightarrow> entries s' ! j = loaded ! j)
                \<and> key (entries s' ! i) = key x
                \<and> SidebarHistoryEntry.url (entries s' ! i) = SidebarHistoryEntry.url x
                \<and> visitedAt (entries s' ! i) = visitedAt x
                \<and> label (entries s' ! i) = updated)
            \<and> timer s' = timer s
            \<and> (if setItem_throws e then localStorage s' = localStorage s
                else stored p s' = entries s'
                     \<and> (\<forall>k'. k' \<noteq> storageKey p \<longrightarrow> localStorage s' k' = localStorage s k')))"
proof -
  define h where "h = getCurrentPageHeading (h1_text e)"
  define loaded where
    "loaded = readHistory (getItem_throws e) (localStorage s) (storageKey p) (maxHistory p)"
  define k where "k = currentUrl (loc_pathname l) (basePath p) (loc_query l)"
  define updated where "updated = resolveLabel (labelResolver p) (label_context p l h)"
  note defs = h_def loaded_def k_def updated_def
  have a: "refine p l e s = s" if "h = None"
    using refine_noop(1) that unfolding defs by blast
  have b: "refine p l e s = s" if "k \<notin> key ` set loaded"
  proof -
    from that have "findIndex (\<lambda>entry. key entry = k) loaded = None"
      by (auto simp: findIndex_None)
    then show ?thesis using refine_noop(2) unfolding defs by blast
  qed
  have c: "refine p l e s = s"
    if "find (\<lambda>entry. key entry = k) loaded = Some x" "label x = updated" for x
  proof -
    from that(1) obtain i where i: "findIndex (\<lambda>entry. key entry = k) loaded = Some i" "loaded ! i = x"
      by (auto simp: find_findIndex)
    with that(2) show ?thesis using refine_noop(3) unfolding defs by blast
  qed
  have d: "(\<exists>i < length loaded.
                loaded ! i = x \<and> (\<forall>j < i. key (loaded ! j) \<noteq> k)
                \<and> entries (refine p l e s) = loaded[i := x\<lparr>label := updated\<rparr>]
                \<and> length (entries (refine p l e s)) = length loaded
                \<and> (\<forall>j < length loaded. j \<noteq> i \<longrightarrow> entries (refine p l e s) ! j = loaded ! j)
                \<and> key (entries (refine p l e s) ! i) = key x
                \<and> SidebarHistoryEntry.url (entries (refine p l e s) ! i) = SidebarHistoryEntry.url x
                \<and> visitedAt (entries (refine p l e s) ! i) = visitedAt x
                \<and> label (entries (refine p l e s) ! i) = updated)
            \<and> timer (refine p l e s) = timer s
            \<and> (if setItem_throws e then localStorage (refine p l e s) = localStorage s
                else stored p (refine p l e s) = entries (refine p l e s)
                     \<and> (\<forall>k'. k' \<noteq> storageKey p \<longrightarrow>
                            localStorage (refine p l e s) k' = localStorage s k'))"
    if "h \<noteq> None" "find (\<lambda>entry. key entry = k) loaded = Some x" "label x \<noteq> updated" for x
  proof -
    from that(2) obtain i where i: "findIndex (\<lambda>entry. key entry = k) loaded = Some i" "loaded ! i = x"
      by (auto simp: find_findIndex)
    from findIndex_Some [OF i(1)] have bounds: "i < length loaded" "\<forall>j < i. key (loaded ! j) \<noteq> k"
      by auto
    let ?next = "loaded[i := (loaded ! i)\<lparr>label := updated\<rparr>]"
    have r: "refine p l e s =
        s\<lparr>localStorage := writeHistory (setItem_throws e) (localStorage s) (storageKey p)
                            ?next (maxHistory p),
          entries := ?next\<rparr>"
      using that(1,3) i heading_truthy [of "h1_text e"] unfolding defs refine_def Let_def
      by simp
    have len: "length ?next \<le> maxHistory p"
      using readHistory_length unfolding loaded_def by simp
    have st: "stored p (refine p l e s) = (if setItem_throws e then stored p s else ?next)"
      unfolding r stored_writeHistory using len by simp
    have e1: "entries (refine p l e s) = ?next" unfolding r by simp
    have t1: "timer (refine p l e s) = timer s" unfolding r by simp
    have ls: "localStorage (refine p l e s) =
        writeHistory (setItem_throws e) (localStorage s) (storageKey p) ?next (maxHistory p)"
      unfolding r by simp
    show ?thesis
      using relabel_frame [OF bounds(1), of updated] bounds i(2) st e1 t1
      by (auto simp: ls writeHistory_throws writeHistory_other_keys)
  qed
  show ?thesis
    unfolding Let_def using a b c d unfolding defs by blast
qed

theorem refinement_frame_witness:
  "getCurrentPageHeading (h1_text (env_at 5 (Some ''Jane Doe''))) \<noteq> None
   \<and> find (\<lambda>entry. key entry = currentUrl (loc_pathname user_location) (basePath plain_props)
                                     (loc_query user_location))
        (readHistory (getItem_throws (env_at 5 (Some ''Jane Doe''))) (localStorage visited_user)
           (storageKey plain_props) (maxHistory plain_props))
       = Some (user_entry ''Users / 123e4567 E89b 12d3 A456 426614174000'')
   \<and> entries (refine plain_props user_location (env_at 5 (Some ''Jane Doe'')) visited_user)
       = [user_entry ''Users / Jane Doe'']
   \<and> stored plain_props (refine plain_props user_location (env_at 5 (Some ''Jane Doe'')) visited_user)
       = [user_entry ''Users / Jane Doe'']
   \<and> timer (refine plain_props user_location (env_at 5 (Some ''Jane Doe'')) visited_user)
       = timer visited_user
   \<and> getCurrentPageHeading (h1_text (env_at 5 None)) = None
   \<and> refine plain_props user_location (env_at 5 None) visited_user = visited_user"
proof -
  let ?e = "env_at 5 (Some ''Jane Doe'')"
  let ?loaded = "readHistory (getItem_throws ?e) (localStorage visited_user)
           (storageKey plain_props) (maxHistory plain_props)"
  let ?k = "currentUrl (loc_pathname user_location) (basePath plain_props) (loc_query user_location)"
  let ?x = "user_entry ''Users / 123e4567 E89b 12d3 A456 426614174000''"
  let ?s' = "refine plain_props user_location ?e visited_user"
  have h: "getCurrentPageHeading (h1_text ?e) \<noteq> None"
    by code_simp
  have ld: "?loaded = [?x]"
    by code_simp
  have f: "find (\<lambda>entry. key entry = ?k) ?loaded = Some ?x"
    by code_simp
  have up: "resolveLabel (labelResolver plain_props)
              (label_context plain_props user_location (getCurrentPageHeading (h1_text ?e)))
            = ''Users / Jane Doe''"
    by code_simp
  have ne: "label ?x \<noteq> ''Users / Jane Doe''"
    by code_simp
  have w: "\<not> setItem_throws ?e"
    by code_simp
  have h0: "getCurrentPageHeading (h1_text (env_at 5 None)) = None"
    by code_simp
  note t = refinement_frame [of ?e visited_user plain_props user_location, unfolded Let_def]
  note t0 = refinement_frame [of "env_at 5 None" visited_user plain_props user_location,
      unfolded Let_def]
  from t h f ne up w obtain i where i: "i < length ?loaded"
    "entries ?s' = ?loaded[i := ?x\<lparr>label := ''Users / Jane Doe''\<rparr>]"
    and tm: "timer ?s' = timer visited_user" and st: "stored plain_props ?s' = entries ?s'"
    by auto
  from i ld have en: "entries ?s' = [user_entry ''Users / Jane Doe'']"
    by (simp add: user_entry_def example_entry_def)
  from t0 h0 have "refine plain_props user_location (env_at 5 None) visited_user = visited_user"
    by blast
  then show ?thesis
    using h f en st tm h0 by simp
qed

text \<open>
  Claim C10. With no base path configured (\<open>basePath\<close> absent or empty), an empty
  query, neither location ignored, room for two entries, a first write that succeeds and
  a second read that succeeds: visiting a pathname and then the same pathname followed by
  \<open>/\<close> leaves two entries at the head of the history, whose keys differ exactly by the
  trailing slash, although both pathnames have the same segments and so, for the same
  heading, the same default label. (This holds for every pathname, in particular for one
  not ending in \<open>/\<close>.)
\<close>

theorem trailing_slash_distinct_entries:
  assumes "\<not> truthy (basePath p)"
    and "\<not> isIgnored pth (basePath p) (ignorePaths p)"
    and "\<not> isIgnored (pth @ ''/'') (basePath p) (ignorePaths p)"
    and "2 \<le> maxHistory p"
    and "\<not> setItem_throws e1" and "\<not> getItem_throws e2"
  shows
    "let l1 = \<lparr>loc_pathname = pth, loc_query = []\<rparr>;
         l2 = \<lparr>loc_pathname = pth @ ''/'', loc_query = []\<rparr>;
         s2 = step p (step p s (Navigate l1 e1)) (Navigate l2 e2)
     in (\<exists>x1 x2 rest.
           entries s2 = x2 # x1 # rest
           \<and> key x1 = pth \<and> key x2 = pth @ ''/'' \<and> key x1 \<noteq> key x2
           \<and> (labelResolver p = None \<and> h1_text e1 = h1_text e2 \<longrightarrow> label x1 = label x2))
        \<and> currentUrl (loc_pathname l2) (basePath p) (loc_query l2)
            = currentUrl (loc_pathname l1) (basePath p) (loc_query l1) @ ''/''
        \<and> path_segments (normalizePath (pth @ ''/'') (basePath p))
            = path_segments (normalizePath pth (basePath p))
        \<and> (\<forall>h. defaultLabelResolver (label_context p l2 h)
                 = defaultLabelResolver (label_context p l1 h))"
proof -
  define l1 where "l1 = \<lparr>loc_pathname = pth, loc_query = []\<rparr>"
  define l2 where "l2 = \<lparr>loc_pathname = pth @ ''/'', loc_query = []\<rparr>"
  define s1 where "s1 = step p s (Navigate l1 e1)"
  define s2 where "s2 = step p s1 (Navigate l2 e2)"
  define x1 where "x1 = \<lparr>key = currentUrl (loc_pathname l1) (basePath p) (loc_query l1),
      SidebarHistoryEntry.url = currentUrl (loc_pathname l1) (basePath p) (loc_query l1),
      label = resolveLabel (labelResolver p) (label_context p l1 (getCurrentPageHeading (h1_text e1))),
      visitedAt = now e1\<rparr>"
  define x2 where "x2 = \<lparr>key = currentUrl (loc_pathname l2) (basePath p) (loc_query l2),
      SidebarHistoryEntry.url = currentUrl (loc_pathname l2) (basePath p) (loc_query l2),
      label = resolveLabel (labelResolver p) (label_context p l2 (getCurrentPageHeading (h1_text e2))),
      visitedAt = now e2\<rparr>"
  have k1: "currentUrl (loc_pathname l1) (basePath p) (loc_query l1) = pth"
    and k2: "currentUrl (loc_pathname l2) (basePath p) (loc_query l2) = pth @ ''/''"
    using normalizePath_unconfigured [OF assms(1)] by (simp_all add: l1_def l2_def currentUrl_def)
  have kx: "key x1 = pth" "key x2 = pth @ ''/''"
    by (simp_all add: x1_def x2_def k1 k2)
  have ni: "\<not> isIgnored (loc_pathname l1) (basePath p) (ignorePaths p)"
    "\<not> isIgnored (loc_pathname l2) (basePath p) (ignorePaths p)"
    using assms(2,3) by (simp_all add: l1_def l2_def)
  have seg: "path_segments (normalizePath (pth @ ''/'') (basePath p))
            = path_segments (normalizePath pth (basePath p))"
    using normalizePath_unconfigured [OF assms(1)] by (simp add: path_segments_trailing_slash)
  have lab: "defaultLabelResolver (label_context p l2 h) = defaultLabelResolver (label_context p l1 h)"
    for h
    by (rule defaultLabelResolver_cong) (simp_all add: label_context_def Let_def l1_def l2_def seg)
  from capture_effect(2) [OF ni(1), of e1 "clearTimeout s"] assms(5)
  have c1: "stored p s1
      = upsert (maxHistory p) x1
          (readHistory (getItem_throws e1) (localStorage s) (storageKey p) (maxHistory p))"
    unfolding s1_def x1_def by simp
  from assms(4) have "0 < maxHistory p" by simp
  from upsert_Cons [OF this] c1 obtain r1 where r1: "stored p s1 = x1 # r1"
    by metis
  have len1: "length (stored p s1) \<le> maxHistory p"
    unfolding c1 by (rule upsert_length)
  have loaded2: "readHistory (getItem_throws e2) (localStorage s1) (storageKey p) (maxHistory p)
      = x1 # r1"
    unfolding readHistory_stored using assms(6) len1 r1 by simp
  from capture_effect(2) [OF ni(2), of e2 "clearTimeout s1"]
  have c2: "entries s2 = upsert (maxHistory p) x2 (x1 # r1)"
    unfolding s2_def x2_def using loaded2 by simp
  have ne: "key x1 \<noteq> key x2" by (simp add: kx)
  from upsert_Cons2 [OF assms(4) ne] c2 obtain rest where rest: "entries s2 = x2 # x1 # rest"
    by metis
  have same: "label x1 = label x2" if "labelResolver p = None" "h1_text e1 = h1_text e2"
    using that lab by (simp add: x1_def x2_def resolveLabel_def)
  show ?thesis
    unfolding Let_def l1_def [symmetric] l2_def [symmetric] s1_def [symmetric] s2_def [symmetric]
    using rest kx ne same k1 k2 seg lab by auto
qed

theorem trailing_slash_distinct_entries_witness:
  "\<not> truthy (basePath plain_props)
   \<and> \<not> isIgnored ''/docs'' (basePath plain_props) (ignorePaths plain_props)
   \<and> \<not> isIgnored (''/docs'' @ ''/'') (basePath plain_props) (ignorePaths plain_props)
   \<and> 2 \<le> maxHistory plain_props
   \<and> \<not> setItem_throws (env_at 1 None) \<and> \<not> getItem_throws (env_at 2 None)
   \<and> take 2 (map key (entries (step plain_props
          (step plain_props initial (Navigate \<lparr>loc_pathname = ''/docs'', loc_query = []\<rparr> (env_at 1 None)))
          (Navigate \<lparr>loc_pathname = ''/docs'' @ ''/'', loc_query = []\<rparr> (env_at 2 None)))))
       = [''/docs/'', ''/docs'']
   \<and> path_segments (normalizePath (''/docs'' @ ''/'') (basePath plain_props))
       = path_segments (normalizePath ''/docs'' (basePath plain_props))
   \<and> map label (entries (step plain_props
          (step plain_props initial (Navigate \<lparr>loc_pathname = ''/docs'', loc_query = []\<rparr> (env_at 1 None)))
          (Navigate \<lparr>loc_pathname = ''/docs'' @ ''/'', loc_query = []\<rparr> (env_at 2 None))))
       = [''Docs'', ''Docs'']"
proof -
  have h: "\<not> truthy (basePath plain_props)"
    "\<not> isIgnored ''/docs'' (basePath plain_props) (ignorePaths plain_props)"
    "\<not> isIgnored (''/docs'' @ ''/'') (basePath plain_props) (ignorePaths plain_props)"
    "2 \<le> maxHistory plain_props"
    "\<not> setItem_throws (env_at 1 None)" "\<not> getItem_throws (env_at 2 None)"
    by code_simp+
  have l: "map label (entries (step plain_props
          (step plain_props initial (Navigate \<lparr>loc_pathname = ''/docs'', loc_query = []\<rparr> (env_at 1 None)))
          (Navigate \<lparr>loc_pathname = ''/docs'' @ ''/'', loc_query = []\<rparr> (env_at 2 None))))
       = [''Docs'', ''Docs'']"
    by code_simp
  note t = trailing_slash_distinct_entries [OF h, of initial, unfolded Let_def]
  from t obtain x1 x2 rest where
    "entries (step plain_props
          (step plain_props initial (Navigate \<lparr>loc_pathname = ''/docs'', loc_query = []\<rparr> (env_at 1 None)))
          (Navigate \<lparr>loc_pathname = ''/docs'' @ ''/'', loc_query = []\<rparr> (env_at 2 None)))
       = x2 # x1 # rest" "key x1 = ''/docs''" "key x2 = ''/docs'' @ ''/''"
    by blast
  then have "take 2 (map key (entries (step plain_props
          (step plain_props initial (Navigate \<lparr>loc_pathname = ''/docs'', loc_query = []\<rparr> (env_at 1 None)))
          (Navigate \<lparr>loc_pathname = ''/docs'' @ ''/'', loc_query = []\<rparr> (env_at 2 None)))))
       = [''/docs/'', ''/docs'']"
    by simp
  moreover from t have "path_segments (normalizePath (''/docs'' @ ''/'') (basePath plain_props))
       = path_segments (normalizePath ''/docs'' (basePath plain_props))"
    by blast
  ultimately show ?thesis
    using h l by blast
qed

end
